theory Spec2Isabelle
  imports Complex_Main "HOL-Library.Multiset" "HOL-Library.Sublist"
begin

section \<open>Numbers\<close>

text \<open>
  The program computes with IEEE doubles. The embedding keeps what its control flow
  distinguishes: a double is either a finite value or one of the three non-finite values
  that \<^verbatim>\<open>pd.isna\<close>, \<^verbatim>\<open>np.isinf\<close> and \<^verbatim>\<open>np.nan_to_num\<close> test for. Finite values are
  exact reals: rounding and overflow of the arithmetic are not modelled. Scores, tIoU
  values and thresholds are taken to be finite.
\<close>

datatype pyfloat = Fin real | PInf | NInf | NaN

fun isna :: "pyfloat \<Rightarrow> bool" where
  "isna NaN = True"
| "isna _ = False"

fun isinf :: "pyfloat \<Rightarrow> bool" where
  "isinf PInf = True"
| "isinf NInf = True"
| "isinf _ = False"

text \<open>\<^verbatim>\<open>np.nan_to_num(x, nan=0.0, posinf=0.0, neginf=0.0)\<close> on one element.\<close>

fun nan_to_num :: "pyfloat \<Rightarrow> real" where
  "nan_to_num (Fin r) = r"
| "nan_to_num _ = 0"

text \<open>The value of a double already known to be finite (the default is never reached
  where the model uses it: both non-finite tests come first).\<close>

fun finite_value :: "pyfloat \<Rightarrow> real" where
  "finite_value (Fin r) = r"
| "finite_value _ = 0"

section \<open>Evaluation: the data frames\<close>

text \<open>One row of the ground-truth frame and one of the prediction frame
  (\<^verbatim>\<open>_import_ground_truth\<close>, \<^verbatim>\<open>_import_prediction\<close>); a frame is the list of its rows, the
  row's position being its index.\<close>

record ground_truth_row =
  gt_video_id :: string
  gt_t_start :: pyfloat
  gt_t_end :: pyfloat
  gt_label :: nat

record prediction_row =
  pd_video_id :: string
  pd_t_start :: pyfloat
  pd_t_end :: pyfloat
  pd_label :: nat
  pd_score :: real
  pd_gentime :: pyfloat

datatype error = KeyError | IndexError

section \<open>The matcher of \<^verbatim>\<open>compute_average_precision_detection\<close>\<close>

text \<open>The four arrays the matcher mutates; each is indexed by threshold first.\<close>

record match_state =
  lock_gt :: "int list list"
  tp :: "real list list"
  fp :: "real list list"
  timediff :: "real list list"

text \<open>\<^verbatim>\<open>m[t, i] = v\<close> on a two-dimensional array.\<close>

definition set2 :: "'a list list \<Rightarrow> nat \<Rightarrow> nat \<Rightarrow> 'a \<Rightarrow> 'a list list" where
  "set2 m t i v = m[t := (m ! t)[i := v]]"

text \<open>\<^verbatim>\<open>np.zeros((rows, cols))\<close> and \<^verbatim>\<open>np.ones((rows, cols)) * -1\<close>.\<close>

definition zeros2 :: "nat \<Rightarrow> nat \<Rightarrow> real list list" where
  "zeros2 rows cols = replicate rows (replicate cols 0)"

definition init_state :: "nat \<Rightarrow> nat \<Rightarrow> nat \<Rightarrow> match_state" where
  "init_state nthr ngt npred =
     \<lparr>lock_gt = replicate nthr (replicate ngt (- 1)),
      tp = zeros2 nthr npred, fp = zeros2 nthr npred, timediff = zeros2 nthr npred\<rparr>"

text \<open>\<^verbatim>\<open>argsort\<close> of numpy: the indices that sort the array in ascending order. numpy leaves
  the order of equal elements open for its default kind; the model takes the stable one
  (what an insertion sort, numpy's choice on short arrays, produces).\<close>

definition argsort :: "real list \<Rightarrow> nat list" where
  "argsort xs = sort_key (\<lambda>i. xs ! i) [0..<length xs]"

text \<open>\<^verbatim>\<open>prediction.loc[sort_idx].reset_index(drop=True)\<close> with
  \<^verbatim>\<open>sort_idx = prediction['score'].values.argsort()[::-1]\<close>.\<close>

definition sort_predictions :: "prediction_row list \<Rightarrow> prediction_row list" where
  "sort_predictions prediction =
     map (\<lambda>i. prediction ! i) (rev (argsort (map pd_score prediction)))"

text \<open>The same two lines for any answer of \<^verbatim>\<open>argsort\<close>: numpy's default kind leaves the
  order of equal scores open, and \<open>asort\<close> stands for whichever it returns.\<close>

definition sort_predictions_with ::
  "(real list \<Rightarrow> nat list) \<Rightarrow> prediction_row list \<Rightarrow> prediction_row list" where
  "sort_predictions_with asort prediction =
     map (\<lambda>i. prediction ! i) (rev (asort (map pd_score prediction)))"

text \<open>\<^verbatim>\<open>ground_truth.groupby('video-id').get_group(v)\<close> followed by \<^verbatim>\<open>reset_index()\<close>: the
  rows of the video, each with its index in \<^verbatim>\<open>ground_truth\<close> (the column \<^verbatim>\<open>'index'\<close>). A
  video without rows raises \<^verbatim>\<open>KeyError\<close>.\<close>

definition get_group ::
  "ground_truth_row list \<Rightarrow> string \<Rightarrow> error + (nat \<times> ground_truth_row) list" where
  "get_group ground_truth v =
     (let g = filter (\<lambda>ir. gt_video_id (snd ir) = v) (enumerate 0 ground_truth)
      in if g = [] then Inl KeyError else Inr g)"

text \<open>The local variables of the loop body for one prediction.\<close>

record pred_ctx =
  c_idx :: nat
  c_gt_index :: "nat list"
  c_tiou_arr :: "real list"
  c_gentime_pred :: real
  c_gentime_gt_arr :: "real list"
  c_tiou_sorted_idx :: "nat list"

text \<open>\<^verbatim>\<open>segment_iou\<close> comes from \<^verbatim>\<open>utils\<close>, which is not among the sources: the matcher
  takes it as the parameter \<open>iou\<close>, applied to the prediction's segment and to each
  ground-truth segment of the video.\<close>

definition make_ctx ::
  "(pyfloat \<times> pyfloat \<Rightarrow> pyfloat \<times> pyfloat \<Rightarrow> real) \<Rightarrow> nat \<Rightarrow> prediction_row \<Rightarrow>
   (nat \<times> ground_truth_row) list \<Rightarrow> pred_ctx" where
  "make_ctx iou idx this_pred this_gt =
     (let tiou_arr = map (\<lambda>ir. iou (pd_t_start this_pred, pd_t_end this_pred)
                                    (gt_t_start (snd ir), gt_t_end (snd ir))) this_gt;
          gentime_pred = (if isna (pd_gentime this_pred) \<or> isinf (pd_gentime this_pred)
                          then 0 else finite_value (pd_gentime this_pred));
          gentime_gt_arr = map (\<lambda>ir. nan_to_num (gt_t_end (snd ir))) this_gt
      in \<lparr>c_idx = idx, c_gt_index = map fst this_gt, c_tiou_arr = tiou_arr,
          c_gentime_pred = gentime_pred, c_gentime_gt_arr = gentime_gt_arr,
          c_tiou_sorted_idx = rev (argsort tiou_arr)\<rparr>)"

text \<open>The loop \<^verbatim>\<open>for jdx in tiou_sorted_idx\<close>: the first branch and the last one end in
  \<^verbatim>\<open>break\<close>, the middle one is \<^verbatim>\<open>continue\<close>. The difference of two finite values is finite in
  exact arithmetic, so the test of \<^verbatim>\<open>time_diff\<close> for NaN and infinity has no branch here.\<close>

fun walk :: "pred_ctx \<Rightarrow> nat \<Rightarrow> real \<Rightarrow> nat list \<Rightarrow> match_state \<Rightarrow> match_state" where
  "walk c tidx tiou_thr [] s = s"
| "walk c tidx tiou_thr (jdx # rest) s =
     (if c_tiou_arr c ! jdx < tiou_thr then s\<lparr>fp := set2 (fp s) tidx (c_idx c) 1\<rparr>
      else if lock_gt s ! tidx ! (c_gt_index c ! jdx) \<ge> 0 then walk c tidx tiou_thr rest s
      else s\<lparr>tp := set2 (tp s) tidx (c_idx c) 1,
             timediff := set2 (timediff s) tidx (c_idx c)
                           (c_gentime_pred c - c_gentime_gt_arr c ! jdx),
             lock_gt := set2 (lock_gt s) tidx (c_gt_index c ! jdx) (int (c_idx c))\<rparr>)"

text \<open>The body of \<^verbatim>\<open>for tidx, tiou_thr in enumerate(tiou_thresholds)\<close>: the walk, then the
  test that marks a prediction left unmarked as a false positive.\<close>

definition threshold_step :: "pred_ctx \<Rightarrow> nat \<Rightarrow> real \<Rightarrow> match_state \<Rightarrow> match_state" where
  "threshold_step c tidx tiou_thr s =
     (let s' = walk c tidx tiou_thr (c_tiou_sorted_idx c) s
      in if fp s' ! tidx ! c_idx c = 0 \<and> tp s' ! tidx ! c_idx c = 0
         then s'\<lparr>fp := set2 (fp s') tidx (c_idx c) 1\<rparr> else s')"

fun threshold_loop :: "pred_ctx \<Rightarrow> (nat \<times> real) list \<Rightarrow> match_state \<Rightarrow> match_state" where
  "threshold_loop c [] s = s"
| "threshold_loop c ((tidx, tiou_thr) # ts) s =
     threshold_loop c ts (threshold_step c tidx tiou_thr s)"

text \<open>The body of \<^verbatim>\<open>for idx, this_pred in prediction.iterrows()\<close>. The handler of the
  \<^verbatim>\<open>try\<close> runs \<^verbatim>\<open>fp[:, idx] = 1\<close> and continues with the next prediction.\<close>

definition prediction_step ::
  "(pyfloat \<times> pyfloat \<Rightarrow> pyfloat \<times> pyfloat \<Rightarrow> real) \<Rightarrow> ground_truth_row list \<Rightarrow> real list \<Rightarrow>
   nat \<Rightarrow> prediction_row \<Rightarrow> match_state \<Rightarrow> match_state" where
  "prediction_step iou ground_truth tiou_thresholds idx this_pred s =
     (case get_group ground_truth (pd_video_id this_pred) of
        Inl e \<Rightarrow> s\<lparr>fp := map (\<lambda>row. row[idx := 1]) (fp s)\<rparr>
      | Inr this_gt \<Rightarrow>
          threshold_loop (make_ctx iou idx this_pred this_gt)
            (enumerate 0 tiou_thresholds) s)"

fun prediction_loop ::
  "(pyfloat \<times> pyfloat \<Rightarrow> pyfloat \<times> pyfloat \<Rightarrow> real) \<Rightarrow> ground_truth_row list \<Rightarrow> real list \<Rightarrow>
   (nat \<times> prediction_row) list \<Rightarrow> match_state \<Rightarrow> match_state" where
  "prediction_loop iou ground_truth tiou_thresholds [] s = s"
| "prediction_loop iou ground_truth tiou_thresholds ((idx, this_pred) # ps) s =
     prediction_loop iou ground_truth tiou_thresholds ps
       (prediction_step iou ground_truth tiou_thresholds idx this_pred s)"

text \<open>The state of the arrays once the first \<open>k\<close> predictions, in sorted order, have been
  processed; \<open>match_predictions\<close> is the state at the end of the loop.\<close>

definition match_prefix ::
  "(pyfloat \<times> pyfloat \<Rightarrow> pyfloat \<times> pyfloat \<Rightarrow> real) \<Rightarrow> ground_truth_row list \<Rightarrow>
   prediction_row list \<Rightarrow> real list \<Rightarrow> nat \<Rightarrow> match_state" where
  "match_prefix iou ground_truth prediction tiou_thresholds k =
     prediction_loop iou ground_truth tiou_thresholds
       (take k (enumerate 0 (sort_predictions prediction)))
       (init_state (length tiou_thresholds) (length ground_truth) (length prediction))"

definition match_predictions ::
  "(pyfloat \<times> pyfloat \<Rightarrow> pyfloat \<times> pyfloat \<Rightarrow> real) \<Rightarrow> ground_truth_row list \<Rightarrow>
   prediction_row list \<Rightarrow> real list \<Rightarrow> match_state" where
  "match_predictions iou ground_truth prediction tiou_thresholds =
     prediction_loop iou ground_truth tiou_thresholds
       (enumerate 0 (sort_predictions prediction))
       (init_state (length tiou_thresholds) (length ground_truth) (length prediction))"

section \<open>The aggregation of \<^verbatim>\<open>compute_average_precision_detection\<close>\<close>

fun cumsum_from :: "real \<Rightarrow> real list \<Rightarrow> real list" where
  "cumsum_from a [] = []"
| "cumsum_from a (x # xs) = (a + x) # cumsum_from (a + x) xs"

definition cumsum :: "real list \<Rightarrow> real list" where
  "cumsum xs = cumsum_from 0 xs"

text \<open>The body of \<^verbatim>\<open>for tidx in range(len(tiou_thresholds))\<close>, giving
  \<^verbatim>\<open>(ap[tidx], tdiff[tidx], cnt_tp[tidx])\<close>. \<^verbatim>\<open>interpolated_prec_rec\<close> comes from \<^verbatim>\<open>utils\<close> and
  is a parameter. A quotient with denominator zero is \<open>0\<close> in HOL, which is also what
  \<^verbatim>\<open>nan_to_num\<close> makes of it in the source. The rows hold one entry per prediction and this
  code runs with at least one prediction, so \<^verbatim>\<open>this_tp[-1]\<close> is the last element.\<close>

definition aggregate_threshold ::
  "(real list \<Rightarrow> real list \<Rightarrow> real) \<Rightarrow> real \<Rightarrow> match_state \<Rightarrow> nat \<Rightarrow> real \<times> real \<times> real" where
  "aggregate_threshold interpolated_prec_rec npos s tidx =
     (let this_tp = cumsum (tp s ! tidx);
          this_fp = cumsum (fp s ! tidx);
          rec = map (\<lambda>x. x / npos) this_tp;
          prec = map2 (\<lambda>a b. a / (a + b)) this_tp this_fp;
          this_tdiff = cumsum (timediff s ! tidx)
      in (interpolated_prec_rec prec rec,
          (if length this_tdiff = 0 \<or> last this_tp = 0 then 0 else last this_tdiff),
          last this_tp))"

definition compute_average_precision_detection ::
  "(real list \<Rightarrow> real list \<Rightarrow> real) \<Rightarrow> (pyfloat \<times> pyfloat \<Rightarrow> pyfloat \<times> pyfloat \<Rightarrow> real) \<Rightarrow>
   ground_truth_row list \<Rightarrow> prediction_row list \<Rightarrow> real list \<Rightarrow>
   real list \<times> real list \<times> real list" where
  "compute_average_precision_detection interpolated_prec_rec iou ground_truth prediction
       tiou_thresholds =
     (if length prediction = 0 \<or> length ground_truth = 0
      then (replicate (length tiou_thresholds) 0, replicate (length tiou_thresholds) 0,
            replicate (length tiou_thresholds) 0)
      else
        let npos = real (length ground_truth);
            s = match_predictions iou ground_truth prediction tiou_thresholds;
            r = map (aggregate_threshold interpolated_prec_rec npos s)
                  [0..<length tiou_thresholds]
        in (map fst r, map (\<lambda>x. fst (snd x)) r, map (\<lambda>x. snd (snd x)) r))"

section \<open>Loading the ground truth and the per-class wrapper\<close>

text \<open>The decoded ground-truth file. An annotation has a label and a segment of two
  numbers; the field \<^verbatim>\<open>subset\<close> of a video is a string or a list of strings, and
  \<^verbatim>\<open>self.subset not in v['subset']\<close> is a substring test on the one and a membership test
  on the other. \<^verbatim>\<open>data['database'].items()\<close> is the list of entries in file order.\<close>

record annotation =
  ann_label :: string
  ann_segment :: "pyfloat \<times> pyfloat"

datatype subset_field = SubsetStr string | SubsetList "string list"

record video_entry =
  v_subset :: subset_field
  v_annotations :: "annotation list"

fun subset_in :: "string \<Rightarrow> subset_field \<Rightarrow> bool" where
  "subset_in s (SubsetStr t) = sublist s t"
| "subset_in s (SubsetList ts) = List.member ts s"

text \<open>\<^verbatim>\<open>activity_index\<close> is a dictionary; its items are kept in insertion order, which is
  the order \<^verbatim>\<open>wrapper_compute_average_precision\<close> iterates in. The loop for one video
  carries \<^verbatim>\<open>(activity_index, cidx)\<close> and the rows appended so far. The test
  \<^verbatim>\<open>ann['label'] not in activity_index\<close> and the lookup that follows it are one case
  distinction here: a new label gets \<open>cidx\<close>, a known one the index stored for it.\<close>

fun import_annotations ::
  "string \<Rightarrow> annotation list \<Rightarrow> (string \<times> nat) list \<times> nat \<times> ground_truth_row list \<Rightarrow>
   (string \<times> nat) list \<times> nat \<times> ground_truth_row list" where
  "import_annotations videoid [] st = st"
| "import_annotations videoid (ann # anns) (activity_index, cidx, rows) =
     (case map_of activity_index (ann_label ann) of
        None \<Rightarrow>
          import_annotations videoid anns
            (activity_index @ [(ann_label ann, cidx)], cidx + 1,
             rows @ [\<lparr>gt_video_id = videoid, gt_t_start = fst (ann_segment ann),
                      gt_t_end = snd (ann_segment ann), gt_label = cidx\<rparr>])
      | Some c \<Rightarrow>
          import_annotations videoid anns
            (activity_index, cidx,
             rows @ [\<lparr>gt_video_id = videoid, gt_t_start = fst (ann_segment ann),
                      gt_t_end = snd (ann_segment ann), gt_label = c\<rparr>]))"

fun import_videos ::
  "string \<Rightarrow> (string \<times> video_entry) list \<Rightarrow>
   (string \<times> nat) list \<times> nat \<times> ground_truth_row list \<Rightarrow>
   (string \<times> nat) list \<times> nat \<times> ground_truth_row list" where
  "import_videos subset_name [] st = st"
| "import_videos subset_name ((videoid, v) # vs) st =
     (if subset_in subset_name (v_subset v)
      then import_videos subset_name vs (import_annotations videoid (v_annotations v) st)
      else import_videos subset_name vs st)"

text \<open>\<^verbatim>\<open>_import_ground_truth\<close>, after the file has been read and its format checked: it
  returns \<^verbatim>\<open>(ground_truth, activity_index, cidx)\<close>.\<close>

definition import_ground_truth ::
  "string \<Rightarrow> (string \<times> video_entry) list \<Rightarrow>
   ground_truth_row list \<times> (string \<times> nat) list \<times> nat" where
  "import_ground_truth subset_name database =
     (case import_videos subset_name database ([], 0, []) of
        (activity_index, cidx, rows) \<Rightarrow> (rows, activity_index, cidx))"

text \<open>The labels of the annotations that are loaded, in the order of the file.\<close>

definition loaded_labels :: "string \<Rightarrow> (string \<times> video_entry) list \<Rightarrow> string list" where
  "loaded_labels subset_name database =
     concat (map (\<lambda>e. map ann_label (v_annotations (snd e)))
                 (filter (\<lambda>e. subset_in subset_name (v_subset (snd e))) database))"

text \<open>\<^verbatim>\<open>m[:, c] = col\<close>; numpy raises \<^verbatim>\<open>IndexError\<close> for a column that does not exist.\<close>

definition set_column :: "real list list \<Rightarrow> nat \<Rightarrow> real list \<Rightarrow> real list list" where
  "set_column m c col = map2 (\<lambda>row v. row[c := v]) m col"

text \<open>The loop \<^verbatim>\<open>for activity, cidx in self.activity_index.items()\<close> of
  \<^verbatim>\<open>wrapper_compute_average_precision\<close> over the arrays \<^verbatim>\<open>(ap, tdiff, cnt_tp)\<close>, each with
  one row per threshold and \<open>ncls\<close> columns.\<close>

fun class_loop ::
  "(real list \<Rightarrow> real list \<Rightarrow> real) \<Rightarrow> (pyfloat \<times> pyfloat \<Rightarrow> pyfloat \<times> pyfloat \<Rightarrow> real) \<Rightarrow>
   real list \<Rightarrow> ground_truth_row list \<Rightarrow> prediction_row list \<Rightarrow> nat \<Rightarrow>
   (string \<times> nat) list \<Rightarrow> real list list \<times> real list list \<times> real list list \<Rightarrow>
   error + real list list \<times> real list list \<times> real list list" where
  "class_loop ipr iou tiou_thresholds ground_truth prediction ncls [] arrays = Inr arrays"
| "class_loop ipr iou tiou_thresholds ground_truth prediction ncls ((activity, cidx) # items)
     (ap, tdiff, cnt_tp) =
     (if cidx \<ge> ncls then Inl IndexError
      else
        case compute_average_precision_detection ipr iou
               (filter (\<lambda>g. gt_label g = cidx) ground_truth)
               (filter (\<lambda>p. pd_label p = cidx) prediction) tiou_thresholds of
          (a, d, c) \<Rightarrow>
            class_loop ipr iou tiou_thresholds ground_truth prediction ncls items
              (set_column ap cidx a, set_column tdiff cidx d, set_column cnt_tp cidx c))"

text \<open>\<^verbatim>\<open>wrapper_compute_average_precision\<close>. The sums and the quotient are finite in exact
  arithmetic, so the closing \<^verbatim>\<open>nan_to_num\<close> changes nothing here.\<close>

definition wrapper_compute_average_precision ::
  "(real list \<Rightarrow> real list \<Rightarrow> real) \<Rightarrow> (pyfloat \<times> pyfloat \<Rightarrow> pyfloat \<times> pyfloat \<Rightarrow> real) \<Rightarrow>
   real list \<Rightarrow> (string \<times> nat) list \<Rightarrow> ground_truth_row list \<Rightarrow> prediction_row list \<Rightarrow>
   error + real list list \<times> real list" where
  "wrapper_compute_average_precision ipr iou tiou_thresholds activity_index ground_truth
       prediction =
     (let nthr = length tiou_thresholds; ncls = length activity_index
      in case class_loop ipr iou tiou_thresholds ground_truth prediction ncls activity_index
                (zeros2 nthr ncls, zeros2 nthr ncls, zeros2 nthr ncls) of
           Inl e \<Rightarrow> Inl e
         | Inr (ap, tdiff, cnt_tp) \<Rightarrow>
             let sum_tdiff = map sum_list tdiff;
                 total_tp = map sum_list cnt_tp;
                 final_tdiff = map2 (\<lambda>s n. if n > 0 then s / n else 0) sum_tdiff total_tp
             in Inr (ap, final_tdiff))"

text \<open>What the wrapper computes for class \<open>c\<close>: the rows of the two frames with that
  label, given to \<open>compute_average_precision_detection\<close>.\<close>

definition per_class ::
  "(real list \<Rightarrow> real list \<Rightarrow> real) \<Rightarrow> (pyfloat \<times> pyfloat \<Rightarrow> pyfloat \<times> pyfloat \<Rightarrow> real) \<Rightarrow>
   real list \<Rightarrow> ground_truth_row list \<Rightarrow> prediction_row list \<Rightarrow> nat \<Rightarrow>
   real list \<times> real list \<times> real list" where
  "per_class ipr iou tiou_thresholds ground_truth prediction c =
     compute_average_precision_detection ipr iou
       (filter (\<lambda>g. gt_label g = c) ground_truth)
       (filter (\<lambda>p. pd_label p = c) prediction) tiou_thresholds"

text \<open>An array with \<open>T\<close> rows of \<open>N\<close> entries.\<close>

definition shape :: "nat \<Rightarrow> nat \<Rightarrow> real list list \<Rightarrow> bool" where
  "shape T N m \<longleftrightarrow> length m = T \<and> list_all (\<lambda>row. length row = N) m"

text \<open>The distinct elements of a list in the order of their first occurrence.\<close>

definition first_seen :: "'a list \<Rightarrow> 'a list" where
  "first_seen xs = rev (remdups (rev xs))"

section \<open>Decoding and online refinement (\<^verbatim>\<open>main.py\<close>)\<close>

text \<open>A proposal is the dictionary with the keys \<^verbatim>\<open>segment\<close>, \<^verbatim>\<open>score\<close>, \<^verbatim>\<open>label\<close> and
  \<^verbatim>\<open>gentime\<close>. The network outputs are finite numbers here.\<close>

record proposal =
  p_segment :: "real \<times> real"
  p_score :: real
  p_label :: string
  p_gentime :: real

text \<open>The body of \<^verbatim>\<open>for anc_idx in range(0, len(anchors))\<close> in \<^verbatim>\<open>eval_map_nms\<close> (the same
  lines stand in \<^verbatim>\<open>eval_map_supnet\<close> and \<^verbatim>\<open>test_online\<close>): the proposals this anchor adds to
  \<^verbatim>\<open>proposal_anc_dict\<close>. \<^verbatim>\<open>cls_anc\<close> and \<^verbatim>\<open>reg_anc\<close> are the frame's rows of classifier scores
  and regression pairs, \<^verbatim>\<open>label_name\<close> is \<^verbatim>\<open>dataset.label_name\<close>. An index outside an array
  raises \<^verbatim>\<open>IndexError\<close>.\<close>

definition decode_anchor ::
  "real \<Rightarrow> string list \<Rightarrow> real \<Rightarrow> int list \<Rightarrow> nat \<Rightarrow> real list list \<Rightarrow> real list list \<Rightarrow>
   nat \<Rightarrow> error + proposal list" where
  "decode_anchor threshold label_name frame_to_time anchors idx cls_anc reg_anc anc_idx =
     (if anc_idx \<ge> length cls_anc then Inl IndexError
      else
        let cls = filter (\<lambda>l. cls_anc ! anc_idx ! l > threshold)
                    [0..<length (cls_anc ! anc_idx) - 1]
        in if length cls = 0 then Inr []
           else if anc_idx \<ge> length reg_anc \<or> length (reg_anc ! anc_idx) < 2
           then Inl IndexError
           else
             let ed = real idx + real_of_int (anchors ! anc_idx) * (reg_anc ! anc_idx ! 0);
                 length = real_of_int (anchors ! anc_idx) * exp (reg_anc ! anc_idx ! 1);
                 st = ed - length
             in if list_ex (\<lambda>label. label \<ge> List.length label_name) cls then Inl IndexError
                else Inr (map (\<lambda>label.
                          \<lparr>p_segment = (st * frame_to_time / 100, ed * frame_to_time / 100),
                           p_score = cls_anc ! anc_idx ! label,
                           p_label = label_name ! label,
                           p_gentime = real idx * frame_to_time / 100\<rparr>) cls))"

fun decode_anchors ::
  "real \<Rightarrow> string list \<Rightarrow> real \<Rightarrow> int list \<Rightarrow> nat \<Rightarrow> real list list \<Rightarrow> real list list \<Rightarrow>
   nat list \<Rightarrow> proposal list \<Rightarrow> error + proposal list" where
  "decode_anchors threshold label_name frame_to_time anchors idx cls_anc reg_anc []
     proposal_anc_dict = Inr proposal_anc_dict"
| "decode_anchors threshold label_name frame_to_time anchors idx cls_anc reg_anc
     (anc_idx # rest) proposal_anc_dict =
     (case decode_anchor threshold label_name frame_to_time anchors idx cls_anc reg_anc anc_idx of
        Inl e \<Rightarrow> Inl e
      | Inr ps \<Rightarrow>
          decode_anchors threshold label_name frame_to_time anchors idx cls_anc reg_anc rest
            (proposal_anc_dict @ ps))"

text \<open>The candidates of frame \<open>idx\<close>: \<^verbatim>\<open>proposal_anc_dict\<close> after the loop over the anchors.\<close>

definition decode_frame ::
  "real \<Rightarrow> string list \<Rightarrow> real \<Rightarrow> int list \<Rightarrow> nat \<Rightarrow> real list list \<Rightarrow> real list list \<Rightarrow>
   error + proposal list" where
  "decode_frame threshold label_name frame_to_time anchors idx cls_anc reg_anc =
     decode_anchors threshold label_name frame_to_time anchors idx cls_anc reg_anc
       [0..<length anchors] []"

text \<open>Modelled from the spec: \<^verbatim>\<open>segment_iou\<close> of \<^verbatim>\<open>utils\<close> and the tIoU used by
  \<^verbatim>\<open>iou_utils\<close>, neither among the sources, for one candidate segment (spec 4.1): the overlap
  is \<open>max(0, min(ends) - max(starts))\<close>, the union is the two lengths minus the overlap,
  the result their quotient if the union is positive and \<open>0\<close> otherwise.\<close>

definition temporal_iou :: "real \<times> real \<Rightarrow> real \<times> real \<Rightarrow> real" where
  "temporal_iou q c =
     (let overlap = max 0 (min (snd q) (snd c) - max (fst q) (fst c));
          union = (snd q - fst q) + (snd c - fst c) - overlap
      in if union > 0 then overlap / union else 0)"

text \<open>Modelled from the spec: \<^verbatim>\<open>check_overlap_proposal\<close> of \<^verbatim>\<open>iou_utils\<close>, which is not among
  the sources. The spec (4.4) says a proposal overlaps the accepted set when its tIoU with
  some entry is greater than the overlap threshold; the result is that entry, or
  \<^verbatim>\<open>None\<close>.\<close>

definition check_overlap_proposal :: "proposal list \<Rightarrow> proposal \<Rightarrow> real \<Rightarrow> proposal option" where
  "check_overlap_proposal proposal_list new_proposal overlapThresh =
     find (\<lambda>q. temporal_iou (p_segment new_proposal) (p_segment q) > overlapThresh)
       proposal_list"

text \<open>The acceptance loops of \<^verbatim>\<open>eval_map_supnet\<close> and \<^verbatim>\<open>test_online\<close> for one frame:
  \<^verbatim>\<open>for proposal in proposal_anc_dict\<close> for one class, inside
  \<^verbatim>\<open>for cls in range(0, num_class - 1)\<close>. \<^verbatim>\<open>proposal_dict\<close> is the accepted set. The loops
  are written for any \<^verbatim>\<open>check_overlap_proposal\<close>, passed as \<open>check_overlap\<close>.\<close>

fun accept_proposals ::
  "(proposal list \<Rightarrow> proposal \<Rightarrow> real \<Rightarrow> proposal option) \<Rightarrow> real \<Rightarrow> string list \<Rightarrow> nat \<Rightarrow>
   proposal list \<Rightarrow> proposal list \<Rightarrow> error + proposal list" where
  "accept_proposals check_overlap overlapThresh label_name cls [] proposal_dict =
     Inr proposal_dict"
| "accept_proposals check_overlap overlapThresh label_name cls (proposal # rest) proposal_dict =
     (if cls \<ge> length label_name then Inl IndexError
      else if p_label proposal = label_name ! cls
      then (if check_overlap proposal_dict proposal overlapThresh = None
            then accept_proposals check_overlap overlapThresh label_name cls rest
                   (proposal_dict @ [proposal])
            else accept_proposals check_overlap overlapThresh label_name cls rest proposal_dict)
      else accept_proposals check_overlap overlapThresh label_name cls rest proposal_dict)"

fun accept_classes ::
  "(proposal list \<Rightarrow> proposal \<Rightarrow> real \<Rightarrow> proposal option) \<Rightarrow> real \<Rightarrow> real \<Rightarrow> string list \<Rightarrow>
   real list \<Rightarrow> proposal list \<Rightarrow> nat list \<Rightarrow> proposal list \<Rightarrow> error + proposal list" where
  "accept_classes check_overlap sup_threshold overlapThresh label_name suppress_conf
     proposal_anc_dict [] proposal_dict = Inr proposal_dict"
| "accept_classes check_overlap sup_threshold overlapThresh label_name suppress_conf
     proposal_anc_dict (cls # rest) proposal_dict =
     (if cls \<ge> length suppress_conf then Inl IndexError
      else if suppress_conf ! cls > sup_threshold
      then (case accept_proposals check_overlap overlapThresh label_name cls proposal_anc_dict
                   proposal_dict of
              Inl e \<Rightarrow> Inl e
            | Inr proposal_dict' \<Rightarrow>
                accept_classes check_overlap sup_threshold overlapThresh label_name
                  suppress_conf proposal_anc_dict rest proposal_dict')
      else accept_classes check_overlap sup_threshold overlapThresh label_name suppress_conf
             proposal_anc_dict rest proposal_dict)"

definition accept_frame ::
  "(proposal list \<Rightarrow> proposal \<Rightarrow> real \<Rightarrow> proposal option) \<Rightarrow> real \<Rightarrow> real \<Rightarrow> string list \<Rightarrow>
   nat \<Rightarrow> real list \<Rightarrow> proposal list \<Rightarrow> proposal list \<Rightarrow> error + proposal list" where
  "accept_frame check_overlap sup_threshold overlapThresh label_name num_class suppress_conf
     proposal_anc_dict proposal_dict =
     accept_classes check_overlap sup_threshold overlapThresh label_name suppress_conf
       proposal_anc_dict [0..<num_class - 1] proposal_dict"

text \<open>The frames of a video and the videos of the data set. The decoder, the suppression
  within the frame and the suppression network run before the acceptance loop and never
  read \<^verbatim>\<open>proposal_dict\<close>: a frame reaches this model as the pair of its suppressed pool
  \<^verbatim>\<open>proposal_anc_dict\<close> and the scores \<^verbatim>\<open>suppress_conf\<close> the network returned for it. After
  the last frame of a video, \<^verbatim>\<open>result_dict[video_name] = proposal_dict\<close> and
  \<^verbatim>\<open>proposal_dict = []\<close>.\<close>

fun video_frames ::
  "(proposal list \<Rightarrow> proposal \<Rightarrow> real \<Rightarrow> proposal option) \<Rightarrow> real \<Rightarrow> real \<Rightarrow> string list \<Rightarrow>
   nat \<Rightarrow> (proposal list \<times> real list) list \<Rightarrow> proposal list \<Rightarrow> error + proposal list" where
  "video_frames check_overlap sup_threshold overlapThresh label_name num_class []
     proposal_dict = Inr proposal_dict"
| "video_frames check_overlap sup_threshold overlapThresh label_name num_class
     ((proposal_anc_dict, suppress_conf) # frames) proposal_dict =
     (case accept_frame check_overlap sup_threshold overlapThresh label_name num_class
             suppress_conf proposal_anc_dict proposal_dict of
        Inl e \<Rightarrow> Inl e
      | Inr proposal_dict' \<Rightarrow>
          video_frames check_overlap sup_threshold overlapThresh label_name num_class frames
            proposal_dict')"

fun video_loop ::
  "(proposal list \<Rightarrow> proposal \<Rightarrow> real \<Rightarrow> proposal option) \<Rightarrow> real \<Rightarrow> real \<Rightarrow> string list \<Rightarrow>
   nat \<Rightarrow> (string \<times> (proposal list \<times> real list) list) list \<Rightarrow>
   (string \<rightharpoonup> proposal list) \<Rightarrow> proposal list \<Rightarrow> error + (string \<rightharpoonup> proposal list)" where
  "video_loop check_overlap sup_threshold overlapThresh label_name num_class [] result_dict
     proposal_dict = Inr result_dict"
| "video_loop check_overlap sup_threshold overlapThresh label_name num_class
     ((video_name, frames) # videos) result_dict proposal_dict =
     (case video_frames check_overlap sup_threshold overlapThresh label_name num_class frames
             proposal_dict of
        Inl e \<Rightarrow> Inl e
      | Inr proposal_dict' \<Rightarrow>
          video_loop check_overlap sup_threshold overlapThresh label_name num_class videos
            (result_dict(video_name \<mapsto> proposal_dict')) [])"

definition online_refiner ::
  "(proposal list \<Rightarrow> proposal \<Rightarrow> real \<Rightarrow> proposal option) \<Rightarrow> real \<Rightarrow> real \<Rightarrow> string list \<Rightarrow>
   nat \<Rightarrow> (string \<times> (proposal list \<times> real list) list) list \<Rightarrow>
   error + (string \<rightharpoonup> proposal list)" where
  "online_refiner check_overlap sup_threshold overlapThresh label_name num_class videos =
     video_loop check_overlap sup_threshold overlapThresh label_name num_class videos
       Map.empty []"

text \<open>The refinement of a frame as the specification words it. The proposals of the pool
  are taken class by class, each with its class; one is appended to the accepted set when
  the score returned for its class exceeds the threshold and \<open>no_overlap\<close> holds of it and
  the accepted set as it is at that moment.\<close>

definition class_proposals :: "string list \<Rightarrow> nat \<Rightarrow> proposal list \<Rightarrow> (nat \<times> proposal) list" where
  "class_proposals label_name num_class pool =
     concat (map (\<lambda>cls. map (Pair cls) (filter (\<lambda>p. p_label p = label_name ! cls) pool))
               [0..<num_class - 1])"

fun spec_accept ::
  "real \<Rightarrow> (proposal list \<Rightarrow> proposal \<Rightarrow> bool) \<Rightarrow> real list \<Rightarrow> (nat \<times> proposal) list \<Rightarrow>
   proposal list \<Rightarrow> proposal list" where
  "spec_accept sup_threshold no_overlap suppress_conf [] accepted = accepted"
| "spec_accept sup_threshold no_overlap suppress_conf ((cls, p) # rest) accepted =
     spec_accept sup_threshold no_overlap suppress_conf rest
       (if suppress_conf ! cls > sup_threshold \<and> no_overlap accepted p
        then accepted @ [p] else accepted)"

text \<open>The refinement of a video as the specification words it: the frames are taken in
  order, each refining the accepted set the frames before it have left.\<close>

fun spec_frames ::
  "real \<Rightarrow> (proposal list \<Rightarrow> proposal \<Rightarrow> bool) \<Rightarrow> string list \<Rightarrow> nat \<Rightarrow>
   (proposal list \<times> real list) list \<Rightarrow> proposal list \<Rightarrow> proposal list" where
  "spec_frames sup_threshold no_overlap label_name num_class [] accepted = accepted"
| "spec_frames sup_threshold no_overlap label_name num_class
     ((proposal_anc_dict, suppress_conf) # frames) accepted =
     spec_frames sup_threshold no_overlap label_name num_class frames
       (spec_accept sup_threshold no_overlap suppress_conf
          (class_proposals label_name num_class proposal_anc_dict) accepted)"

text \<open>The candidates one anchor contributes, as the specification lists them.\<close>

definition anchor_candidates ::
  "real \<Rightarrow> string list \<Rightarrow> real \<Rightarrow> int list \<Rightarrow> nat \<Rightarrow> real list list \<Rightarrow> real list list \<Rightarrow>
   nat \<Rightarrow> proposal list" where
  "anchor_candidates threshold label_name frame_to_time anchors idx cls_anc reg_anc anc_idx =
     map (\<lambda>label.
            \<lparr>p_segment =
               ((real idx + real_of_int (anchors ! anc_idx) * (reg_anc ! anc_idx ! 0)
                 - real_of_int (anchors ! anc_idx) * exp (reg_anc ! anc_idx ! 1))
                  * frame_to_time / 100,
                (real idx + real_of_int (anchors ! anc_idx) * (reg_anc ! anc_idx ! 0))
                  * frame_to_time / 100),
             p_score = cls_anc ! anc_idx ! label,
             p_label = label_name ! label,
             p_gentime = real idx * frame_to_time / 100\<rparr>)
         (filter (\<lambda>label. cls_anc ! anc_idx ! label > threshold)
            [0..<length (cls_anc ! anc_idx) - 1])"

section \<open>The matcher, one threshold at a time\<close>

text \<open>The loops over the thresholds touch row \<open>tidx\<close> of each array and nothing else. The
  definitions of this section repeat the walk, the threshold step and the prediction loop
  on a single row; they are shown below to compute row \<open>t\<close> of what the functions on
  the whole arrays compute, and the properties of the matcher are proved on them.\<close>

record row_state =
  r_lock :: "int list"
  r_tp :: "real list"
  r_fp :: "real list"
  r_td :: "real list"

definition row :: "nat \<Rightarrow> match_state \<Rightarrow> row_state" where
  "row t s = \<lparr>r_lock = lock_gt s ! t, r_tp = tp s ! t, r_fp = fp s ! t, r_td = timediff s ! t\<rparr>"

definition nrows :: "nat \<Rightarrow> match_state \<Rightarrow> bool" where
  "nrows T s \<longleftrightarrow> length (lock_gt s) = T \<and> length (tp s) = T \<and> length (fp s) = T
     \<and> length (timediff s) = T"

definition init_row :: "nat \<Rightarrow> nat \<Rightarrow> row_state" where
  "init_row G n = \<lparr>r_lock = replicate G (- 1), r_tp = replicate n 0, r_fp = replicate n 0,
                   r_td = replicate n 0\<rparr>"

fun walk_row :: "pred_ctx \<Rightarrow> real \<Rightarrow> nat list \<Rightarrow> row_state \<Rightarrow> row_state" where
  "walk_row c thr [] r = r"
| "walk_row c thr (jdx # rest) r =
     (if c_tiou_arr c ! jdx < thr then r\<lparr>r_fp := (r_fp r)[c_idx c := 1]\<rparr>
      else if r_lock r ! (c_gt_index c ! jdx) \<ge> 0 then walk_row c thr rest r
      else r\<lparr>r_tp := (r_tp r)[c_idx c := 1],
             r_td := (r_td r)[c_idx c := c_gentime_pred c - c_gentime_gt_arr c ! jdx],
             r_lock := (r_lock r)[c_gt_index c ! jdx := int (c_idx c)]\<rparr>)"

definition step_row :: "pred_ctx \<Rightarrow> real \<Rightarrow> row_state \<Rightarrow> row_state" where
  "step_row c thr r =
     (let r' = walk_row c thr (c_tiou_sorted_idx c) r
      in if r_fp r' ! c_idx c = 0 \<and> r_tp r' ! c_idx c = 0
         then r'\<lparr>r_fp := (r_fp r')[c_idx c := 1]\<rparr> else r')"

definition pred_row ::
  "(pyfloat \<times> pyfloat \<Rightarrow> pyfloat \<times> pyfloat \<Rightarrow> real) \<Rightarrow> ground_truth_row list \<Rightarrow> real \<Rightarrow>
   nat \<Rightarrow> prediction_row \<Rightarrow> row_state \<Rightarrow> row_state" where
  "pred_row iou ground_truth thr idx this_pred r =
     (case get_group ground_truth (pd_video_id this_pred) of
        Inl e \<Rightarrow> r\<lparr>r_fp := (r_fp r)[idx := 1]\<rparr>
      | Inr this_gt \<Rightarrow> step_row (make_ctx iou idx this_pred this_gt) thr r)"

fun loop_row ::
  "(pyfloat \<times> pyfloat \<Rightarrow> pyfloat \<times> pyfloat \<Rightarrow> real) \<Rightarrow> ground_truth_row list \<Rightarrow> real \<Rightarrow>
   (nat \<times> prediction_row) list \<Rightarrow> row_state \<Rightarrow> row_state" where
  "loop_row iou ground_truth thr [] r = r"
| "loop_row iou ground_truth thr ((idx, this_pred) # ps) r =
     loop_row iou ground_truth thr ps (pred_row iou ground_truth thr idx this_pred r)"

definition row_prefix ::
  "(pyfloat \<times> pyfloat \<Rightarrow> pyfloat \<times> pyfloat \<Rightarrow> real) \<Rightarrow> ground_truth_row list \<Rightarrow>
   prediction_row list \<Rightarrow> real \<Rightarrow> nat \<Rightarrow> row_state" where
  "row_prefix iou gt pred thr k =
     loop_row iou gt thr (take k (enumerate 0 (sort_predictions pred)))
       (init_row (length gt) (length pred))"

text \<open>The walk as the specification words it. The candidates are the ground-truth
  instances of the prediction's video, each with its tIoU, in the order the matcher visits
  them; \<open>locked\<close> tells which instances are taken. The walk ends with the prediction a
  false positive, or a true positive matched to one instance.\<close>

datatype outcome = FalsePositive | TruePositive nat

fun spec_walk :: "real \<Rightarrow> (nat \<Rightarrow> bool) \<Rightarrow> (nat \<times> real) list \<Rightarrow> outcome" where
  "spec_walk thr locked [] = FalsePositive"
| "spec_walk thr locked ((g, tiou) # cs) =
     (if tiou < thr then FalsePositive
      else if locked g then spec_walk thr locked cs
      else TruePositive g)"

definition candidates :: "pred_ctx \<Rightarrow> (nat \<times> real) list" where
  "candidates c = map (\<lambda>j. (c_gt_index c ! j, c_tiou_arr c ! j)) (c_tiou_sorted_idx c)"

text \<open>What an outcome for prediction \<open>k\<close> does to a row; \<open>lat g\<close> is the latency against
  instance \<open>g\<close>.\<close>

fun apply_outcome :: "nat \<Rightarrow> (nat \<Rightarrow> real) \<Rightarrow> outcome \<Rightarrow> row_state \<Rightarrow> row_state" where
  "apply_outcome k lat FalsePositive r = r\<lparr>r_fp := (r_fp r)[k := 1]\<rparr>"
| "apply_outcome k lat (TruePositive g) r =
     r\<lparr>r_tp := (r_tp r)[k := 1], r_td := (r_td r)[k := lat g], r_lock := (r_lock r)[g := int k]\<rparr>"

definition tiou_of ::
  "(pyfloat \<times> pyfloat \<Rightarrow> pyfloat \<times> pyfloat \<Rightarrow> real) \<Rightarrow> prediction_row \<Rightarrow>
   ground_truth_row list \<Rightarrow> nat \<Rightarrow> real" where
  "tiou_of iou p gt g = iou (pd_t_start p, pd_t_end p) (gt_t_start (gt ! g), gt_t_end (gt ! g))"

definition latency :: "prediction_row \<Rightarrow> ground_truth_row list \<Rightarrow> nat \<Rightarrow> real" where
  "latency p gt g = nan_to_num (pd_gentime p) - nan_to_num (gt_t_end (gt ! g))"

definition pred_outcome ::
  "(pyfloat \<times> pyfloat \<Rightarrow> pyfloat \<times> pyfloat \<Rightarrow> real) \<Rightarrow> ground_truth_row list \<Rightarrow> real \<Rightarrow>
   prediction_row \<Rightarrow> int list \<Rightarrow> outcome" where
  "pred_outcome iou gt thr p lock =
     (case get_group gt (pd_video_id p) of
        Inl e \<Rightarrow> FalsePositive
      | Inr this_gt \<Rightarrow> spec_walk thr (\<lambda>g. 0 \<le> lock ! g) (candidates (make_ctx iou 0 p this_gt)))"

text \<open>The invariant of a row once the first \<open>k\<close> of \<open>n\<close> predictions are processed, with
  \<open>G\<close> ground-truth instances: every processed prediction is marked exactly once, the
  others not at all; a lock is \<open>-1\<close> or the index of a processed true positive; every true
  positive holds a lock; no two instances are locked by the same prediction.\<close>

definition row_inv :: "nat \<Rightarrow> nat \<Rightarrow> nat \<Rightarrow> row_state \<Rightarrow> bool" where
  "row_inv G n k r \<longleftrightarrow>
     length (r_lock r) = G \<and> length (r_tp r) = n \<and> length (r_fp r) = n \<and> length (r_td r) = n
     \<and> (\<forall>i<n. if i < k
               then (r_tp r ! i = 1 \<and> r_fp r ! i = 0)
                    \<or> (r_tp r ! i = 0 \<and> r_fp r ! i = 1 \<and> r_td r ! i = 0)
               else r_tp r ! i = 0 \<and> r_fp r ! i = 0 \<and> r_td r ! i = 0)
     \<and> (\<forall>g<G. r_lock r ! g = - 1 \<or> (\<exists>i<k. i < n \<and> r_lock r ! g = int i \<and> r_tp r ! i = 1))
     \<and> (\<forall>i<k. r_tp r ! i = 1 \<longrightarrow> (\<exists>g<G. r_lock r ! g = int i))
     \<and> (\<forall>g<G. \<forall>g'<G. 0 \<le> r_lock r ! g \<longrightarrow> r_lock r ! g = r_lock r ! g' \<longrightarrow> g = g')"

section \<open>Concrete inputs\<close>

text \<open>Modelled from the spec: \<^verbatim>\<open>segment_iou\<close> of \<^verbatim>\<open>utils\<close>, which is not among the sources,
  for one candidate: the tIoU of spec 4.1 on the endpoints of the two segments. The spec
  gives it for finite endpoints; a non-finite one, which no concrete input below has, is
  read as \<open>0\<close>. The theorems about the matcher hold for every \<open>iou\<close>; this function is
  what they are applied to on the concrete inputs.\<close>

definition segment_iou :: "pyfloat \<times> pyfloat \<Rightarrow> pyfloat \<times> pyfloat \<Rightarrow> real" where
  "segment_iou q c = temporal_iou (nan_to_num (fst q), nan_to_num (snd q))
                                  (nan_to_num (fst c), nan_to_num (snd c))"

text \<open>One class with two ground-truth instances in video \<open>v1\<close> and four predictions: two
  on the first instance, one in a video without ground truth, one on the second instance
  with a generation time that is not a number.\<close>

definition ex_gt :: "ground_truth_row list" where
  "ex_gt = [\<lparr>gt_video_id = ''v1'', gt_t_start = Fin 0, gt_t_end = Fin 10, gt_label = 0\<rparr>,
            \<lparr>gt_video_id = ''v1'', gt_t_start = Fin 20, gt_t_end = Fin 30, gt_label = 0\<rparr>]"

definition ex_pred :: "prediction_row list" where
  "ex_pred = [\<lparr>pd_video_id = ''v1'', pd_t_start = Fin 1, pd_t_end = Fin 10, pd_label = 0,
                pd_score = 4 / 5, pd_gentime = Fin 12\<rparr>,
              \<lparr>pd_video_id = ''v1'', pd_t_start = Fin 0, pd_t_end = Fin 10, pd_label = 0,
                pd_score = 9 / 10, pd_gentime = Fin 11\<rparr>,
              \<lparr>pd_video_id = ''v2'', pd_t_start = Fin 0, pd_t_end = Fin 10, pd_label = 0,
                pd_score = 7 / 10, pd_gentime = Fin 11\<rparr>,
              \<lparr>pd_video_id = ''v1'', pd_t_start = Fin 20, pd_t_end = Fin 30, pd_label = 0,
                pd_score = 3 / 5, pd_gentime = NaN\<rparr>]"

text \<open>Two predictions with the same score.\<close>

definition ex_tie :: "prediction_row list" where
  "ex_tie = [\<lparr>pd_video_id = ''v1'', pd_t_start = Fin 0, pd_t_end = Fin 10, pd_label = 0,
               pd_score = 1 / 2, pd_gentime = Fin 11\<rparr>,
             \<lparr>pd_video_id = ''v1'', pd_t_start = Fin 20, pd_t_end = Fin 30, pd_label = 0,
               pd_score = 1 / 2, pd_gentime = Fin 31\<rparr>]"

text \<open>A ground-truth file with three videos, one of them outside the validation subset,
  and two labels.\<close>

definition ex_database :: "(string \<times> video_entry) list" where
  "ex_database =
     [(''v1'', \<lparr>v_subset = SubsetStr ''validation'',
               v_annotations = [\<lparr>ann_label = ''run'', ann_segment = (Fin 0, Fin 10)\<rparr>,
                                \<lparr>ann_label = ''jump'', ann_segment = (Fin 20, Fin 30)\<rparr>]\<rparr>),
      (''v2'', \<lparr>v_subset = SubsetStr ''training'',
               v_annotations = [\<lparr>ann_label = ''swim'', ann_segment = (Fin 0, Fin 5)\<rparr>]\<rparr>),
      (''v3'', \<lparr>v_subset = SubsetList [''validation''],
               v_annotations = [\<lparr>ann_label = ''run'', ann_segment = (Fin 3, Fin 4)\<rparr>]\<rparr>)]"

text \<open>The outputs of the network for one frame with two anchors and three classes before
  the background.\<close>

definition ex_cls_anc :: "real list list" where
  "ex_cls_anc = [[9 / 10, 1 / 5, 3 / 5, 1 / 10], [1 / 10, 1 / 10, 1 / 10, 7 / 10]]"

definition ex_reg_anc :: "real list list" where
  "ex_reg_anc = [[1 / 2, 0], [0, 0]]"

text \<open>Two videos for the online refiner, with two classes before the background. In the
  first frame of video \<open>a\<close> only the first class passes the gate; its second frame
  brings a proposal that overlaps the accepted one and one that does not.\<close>

definition ex_run1 :: proposal where
  "ex_run1 = \<lparr>p_segment = (0, 10), p_score = 9 / 10, p_label = ''run'', p_gentime = 10\<rparr>"

definition ex_jump1 :: proposal where
  "ex_jump1 = \<lparr>p_segment = (0, 9), p_score = 4 / 5, p_label = ''jump'', p_gentime = 10\<rparr>"

definition ex_run2 :: proposal where
  "ex_run2 = \<lparr>p_segment = (1, 10), p_score = 7 / 10, p_label = ''run'', p_gentime = 11\<rparr>"

definition ex_run3 :: proposal where
  "ex_run3 = \<lparr>p_segment = (20, 30), p_score = 3 / 5, p_label = ''run'', p_gentime = 30\<rparr>"

definition ex_videos :: "(string \<times> (proposal list \<times> real list) list) list" where
  "ex_videos =
     [(''a'', [([ex_run1, ex_jump1], [9 / 10, 1 / 5]), ([ex_run2, ex_run3], [4 / 5, 0])]),
      (''b'', [([ex_run2], [9 / 10, 9 / 10])])]"

section \<open>Rows of the arrays are processed independently\<close>

lemma set2_nth: "t < length m \<Longrightarrow> set2 m t i v ! t' = (if t' = t then (m ! t)[i := v] else m ! t')"
  by (simp add: set2_def)

lemma length_set2 [simp]: "length (set2 m t i v) = length m"
  by (simp add: set2_def)

lemma walk_sim:
  "nrows T s \<Longrightarrow> t < T \<Longrightarrow>
   nrows T (walk c t thr js s) \<and> row t (walk c t thr js s) = walk_row c thr js (row t s)
   \<and> (\<forall>t'. t' \<noteq> t \<longrightarrow> row t' (walk c t thr js s) = row t' s)"
proof (induction js arbitrary: s)
  case Nil
  then show ?case by simp
next
  case (Cons j js)
  then show ?case
    by (simp add: nrows_def row_def set2_nth)
qed

lemma row_sel [simp]:
  "r_lock (row t s) = lock_gt s ! t" "r_tp (row t s) = tp s ! t"
  "r_fp (row t s) = fp s ! t" "r_td (row t s) = timediff s ! t"
  by (simp_all add: row_def)

lemma threshold_step_sim:
  assumes "nrows T s" "t < T"
  shows "nrows T (threshold_step c t thr s)"
    and "row t (threshold_step c t thr s) = step_row c thr (row t s)"
    and "t' \<noteq> t \<Longrightarrow> row t' (threshold_step c t thr s) = row t' s"
proof -
  define s' where "s' = walk c t thr (c_tiou_sorted_idx c) s"
  have w: "nrows T s'" "row t s' = walk_row c thr (c_tiou_sorted_idx c) (row t s)"
    "\<And>u. u \<noteq> t \<Longrightarrow> row u s' = row u s"
    using walk_sim [OF assms, where c=c and thr=thr and js="c_tiou_sorted_idx c"] by (simp_all add: s'_def)
  have ts: "threshold_step c t thr s =
      (if fp s' ! t ! c_idx c = 0 \<and> tp s' ! t ! c_idx c = 0
       then s'\<lparr>fp := set2 (fp s') t (c_idx c) 1\<rparr> else s')"
    by (simp add: threshold_step_def s'_def Let_def)
  have sel: "fp s' ! t = r_fp (walk_row c thr (c_tiou_sorted_idx c) (row t s))"
    "tp s' ! t = r_tp (walk_row c thr (c_tiou_sorted_idx c) (row t s))"
    using w(2) [symmetric] by simp_all
  have lt: "t < length (fp s')" using w(1) assms(2) by (simp add: nrows_def)
  show "nrows T (threshold_step c t thr s)"
    using w(1) by (simp add: ts nrows_def)
  show "row t (threshold_step c t thr s) = step_row c thr (row t s)"
    unfolding ts step_row_def Let_def sel w(2) [symmetric]
    using lt by (simp add: row_def set2_nth)
  show "t' \<noteq> t \<Longrightarrow> row t' (threshold_step c t thr s) = row t' s"
    using w(3) [of t'] lt unfolding ts by (simp add: row_def set2_nth)
qed

lemma threshold_loop_sim:
  "nrows T s \<Longrightarrow> k + length ths \<le> T \<Longrightarrow>
   nrows T (threshold_loop c (enumerate k ths) s)
   \<and> (\<forall>t. row t (threshold_loop c (enumerate k ths) s) =
        (if k \<le> t \<and> t < k + length ths then step_row c (ths ! (t - k)) (row t s) else row t s))"
proof (induction ths arbitrary: k s)
  case Nil
  then show ?case by auto
next
  case (Cons thr ths)
  let ?s = "threshold_step c k thr s"
  have k: "k < T" using Cons.prems by simp
  note st = threshold_step_sim [OF Cons.prems(1) k, where c=c and thr=thr]
  have ih: "nrows T (threshold_loop c (enumerate (Suc k) ths) ?s)
   \<and> (\<forall>t. row t (threshold_loop c (enumerate (Suc k) ths) ?s) =
        (if Suc k \<le> t \<and> t < Suc k + length ths then step_row c (ths ! (t - Suc k)) (row t ?s) else row t ?s))"
    using Cons.IH [where s = ?s and k = "Suc k"] st(1) Cons.prems(2) by simp
  show ?case
  proof (intro conjI allI)
    show "nrows T (threshold_loop c (enumerate k (thr # ths)) s)" using ih by simp
  next
    fix t
    show "row t (threshold_loop c (enumerate k (thr # ths)) s) =
        (if k \<le> t \<and> t < k + length (thr # ths) then step_row c ((thr # ths) ! (t - k)) (row t s) else row t s)"
    proof (cases "t = k")
      case True
      then show ?thesis using ih st(2) by simp
    next
      case False
      then have "row t ?s = row t s" using st(3) by simp
      with False show ?thesis using ih by (auto simp: nth_Cons')  
    qed
  qed
qed

lemma prediction_step_sim:
  assumes "nrows (length ths) s" "t < length ths"
  shows "nrows (length ths) (prediction_step iou gt ths idx p s)"
    and "row t (prediction_step iou gt ths idx p s) = pred_row iou gt (ths ! t) idx p (row t s)"
proof -
  note tl = threshold_loop_sim [of "length ths" s 0 ths, simplified, OF assms(1)]
  show "nrows (length ths) (prediction_step iou gt ths idx p s)"
    using tl assms by (auto simp: prediction_step_def nrows_def split: sum.splits)
  show "row t (prediction_step iou gt ths idx p s) = pred_row iou gt (ths ! t) idx p (row t s)"
    using tl assms by (auto simp: prediction_step_def pred_row_def nrows_def row_def split: sum.splits)
qed

lemma prediction_loop_sim:
  "nrows (length ths) s \<Longrightarrow> t < length ths \<Longrightarrow>
   nrows (length ths) (prediction_loop iou gt ths ps s)
   \<and> row t (prediction_loop iou gt ths ps s) = loop_row iou gt (ths ! t) ps (row t s)"
proof (induction ps arbitrary: s)
  case Nil
  then show ?case by simp
next
  case (Cons a ps)
  obtain idx p where a: "a = (idx, p)" by (cases a)
  show ?case using Cons.IH [where s = "prediction_step iou gt ths idx p s"] Cons.prems
      prediction_step_sim [OF Cons.prems, where iou=iou and gt=gt and idx=idx and p=p]
    by (simp add: a)
qed

section \<open>The walk and its outcome\<close>

lemma spec_walk_TruePositive:
  "spec_walk thr locked cs = TruePositive g \<Longrightarrow>
   \<exists>tiou. (g, tiou) \<in> set cs \<and> \<not> locked g \<and> \<not> tiou < thr"
  by (induction thr locked cs rule: spec_walk.induct) (auto split: if_splits)

lemma walk_row_spec:
  assumes "\<forall>j\<in>set js. c_gentime_pred c - c_gentime_gt_arr c ! j = lat (c_gt_index c ! j)"
  shows "case spec_walk thr (\<lambda>g. r_lock r ! g \<ge> 0)
                (map (\<lambda>j. (c_gt_index c ! j, c_tiou_arr c ! j)) js) of
           TruePositive g \<Rightarrow> walk_row c thr js r = apply_outcome (c_idx c) lat (TruePositive g) r
         | FalsePositive \<Rightarrow> walk_row c thr js r = r
                             \<or> walk_row c thr js r = apply_outcome (c_idx c) lat FalsePositive r"
  using assms by (induction js) (auto split: outcome.splits)

lemma step_row_spec:
  assumes "\<forall>j\<in>set (c_tiou_sorted_idx c).
             c_gentime_pred c - c_gentime_gt_arr c ! j = lat (c_gt_index c ! j)"
    and "c_idx c < length (r_tp r)" "c_idx c < length (r_fp r)"
    and "r_tp r ! c_idx c = 0" "r_fp r ! c_idx c = 0"
  shows "step_row c thr r =
     apply_outcome (c_idx c) lat (spec_walk thr (\<lambda>g. r_lock r ! g \<ge> 0) (candidates c)) r"
proof (cases "spec_walk thr (\<lambda>g. r_lock r ! g \<ge> 0) (candidates c)")
  case FalsePositive
  with walk_row_spec [OF assms(1), of thr r]
  have "walk_row c thr (c_tiou_sorted_idx c) r = r
      \<or> walk_row c thr (c_tiou_sorted_idx c) r = r\<lparr>r_fp := (r_fp r)[c_idx c := 1]\<rparr>"
    by (simp add: candidates_def)
  then show ?thesis
    using FalsePositive assms(2-) by (auto simp: step_row_def)
next
  case (TruePositive g)
  with walk_row_spec [OF assms(1), of thr r]
  have "walk_row c thr (c_tiou_sorted_idx c) r = apply_outcome (c_idx c) lat (TruePositive g) r"
    by (simp add: candidates_def)
  then show ?thesis
    using TruePositive assms(2-) by (simp add: step_row_def)
qed

section \<open>The row invariant\<close>

lemma row_inv_init: "row_inv G n 0 (init_row G n)"
  by (simp add: row_inv_def init_row_def)

lemma row_inv_length:
  "row_inv G n k r \<Longrightarrow> length (r_lock r) = G \<and> length (r_tp r) = n \<and> length (r_fp r) = n \<and> length (r_td r) = n"
  by (simp add: row_inv_def)

lemma row_inv_done:
  "row_inv G n k r \<Longrightarrow> i < k \<Longrightarrow> i < n \<Longrightarrow>
   (r_tp r ! i = 1 \<and> r_fp r ! i = 0) \<or> (r_tp r ! i = 0 \<and> r_fp r ! i = 1 \<and> r_td r ! i = 0)"
  unfolding row_inv_def by (elim conjE) (drule spec [of _ i], simp)

lemma row_inv_todo:
  "row_inv G n k r \<Longrightarrow> k \<le> i \<Longrightarrow> i < n \<Longrightarrow> r_tp r ! i = 0 \<and> r_fp r ! i = 0 \<and> r_td r ! i = 0"
  unfolding row_inv_def by (elim conjE) (drule spec [of _ i], simp)

lemma row_inv_lock:
  "row_inv G n k r \<Longrightarrow> g < G \<Longrightarrow>
   r_lock r ! g = - 1 \<or> (\<exists>i<k. i < n \<and> r_lock r ! g = int i \<and> r_tp r ! i = 1)"
  by (simp add: row_inv_def)

lemma row_inv_claim:
  "row_inv G n k r \<Longrightarrow> i < k \<Longrightarrow> r_tp r ! i = 1 \<Longrightarrow> \<exists>g<G. r_lock r ! g = int i"
  by (simp add: row_inv_def)

lemma row_inv_inj:
  "row_inv G n k r \<Longrightarrow> g < G \<Longrightarrow> g' < G \<Longrightarrow> 0 \<le> r_lock r ! g \<Longrightarrow> r_lock r ! g = r_lock r ! g'
   \<Longrightarrow> g = g'"
  unfolding row_inv_def by blast

lemma row_invI:
  assumes "length (r_lock r) = G" "length (r_tp r) = n" "length (r_fp r) = n" "length (r_td r) = n"
    and "\<And>i. i < k \<Longrightarrow> i < n \<Longrightarrow>
           (r_tp r ! i = 1 \<and> r_fp r ! i = 0) \<or> (r_tp r ! i = 0 \<and> r_fp r ! i = 1 \<and> r_td r ! i = 0)"
    and "\<And>i. k \<le> i \<Longrightarrow> i < n \<Longrightarrow> r_tp r ! i = 0 \<and> r_fp r ! i = 0 \<and> r_td r ! i = 0"
    and "\<And>g. g < G \<Longrightarrow>
           r_lock r ! g = - 1 \<or> (\<exists>i<k. i < n \<and> r_lock r ! g = int i \<and> r_tp r ! i = 1)"
    and "\<And>i. i < k \<Longrightarrow> r_tp r ! i = 1 \<Longrightarrow> \<exists>g<G. r_lock r ! g = int i"
    and "\<And>g g'. g < G \<Longrightarrow> g' < G \<Longrightarrow> 0 \<le> r_lock r ! g \<Longrightarrow> r_lock r ! g = r_lock r ! g'
           \<Longrightarrow> g = g'"
  shows "row_inv G n k r"
  unfolding row_inv_def using assms by (simp add: not_less)

lemma row_inv_FalsePositive:
  assumes inv: "row_inv G n k r" and k: "k < n"
  shows "row_inv G n (Suc k) (apply_outcome k lat FalsePositive r)"
proof (rule row_invI)
  note len = row_inv_length [OF inv]
  note k0 = row_inv_todo [OF inv le_refl k]
  let ?r = "apply_outcome k lat FalsePositive r"
  show "length (r_lock ?r) = G" "length (r_tp ?r) = n" "length (r_fp ?r) = n" "length (r_td ?r) = n"
    using len by simp_all
  show "(r_tp ?r ! i = 1 \<and> r_fp ?r ! i = 0) \<or> (r_tp ?r ! i = 0 \<and> r_fp ?r ! i = 1 \<and> r_td ?r ! i = 0)"
    if "i < Suc k" "i < n" for i
  proof (cases "i = k")
    case True
    then show ?thesis using k0 len k by simp
  next
    case False
    then show ?thesis using row_inv_done [OF inv, of i] that by simp
  qed
  show "r_tp ?r ! i = 0 \<and> r_fp ?r ! i = 0 \<and> r_td ?r ! i = 0" if "Suc k \<le> i" "i < n" for i
    using row_inv_todo [OF inv, of i] that by simp
  show "r_lock ?r ! g = - 1 \<or> (\<exists>i<Suc k. i < n \<and> r_lock ?r ! g = int i \<and> r_tp ?r ! i = 1)"
    if "g < G" for g
    using row_inv_lock [OF inv that] by (auto simp: less_Suc_eq)
  show "\<exists>g<G. r_lock ?r ! g = int i" if "i < Suc k" "r_tp ?r ! i = 1" for i
  proof -
    have "i \<noteq> k" using that(2) k0 by auto
    then show ?thesis using row_inv_claim [OF inv, of i] that by simp
  qed
  show "g = g'" if "g < G" "g' < G" "0 \<le> r_lock ?r ! g" "r_lock ?r ! g = r_lock ?r ! g'" for g g'
    using row_inv_inj [OF inv that(1,2)] that(3,4) by simp
qed

lemma row_inv_TruePositive:
  assumes inv: "row_inv G n k r" and k: "k < n" and g: "g < G" and free: "\<not> 0 \<le> r_lock r ! g"
  shows "row_inv G n (Suc k) (apply_outcome k lat (TruePositive g) r)"
proof (rule row_invI)
  note len = row_inv_length [OF inv]
  note k0 = row_inv_todo [OF inv le_refl k]
  have old: "r_lock r ! h \<noteq> int k" if "h < G" for h
    using row_inv_lock [OF inv that] by auto
  let ?r = "apply_outcome k lat (TruePositive g) r"
  show "length (r_lock ?r) = G" "length (r_tp ?r) = n" "length (r_fp ?r) = n" "length (r_td ?r) = n"
    using len by simp_all
  show "(r_tp ?r ! i = 1 \<and> r_fp ?r ! i = 0) \<or> (r_tp ?r ! i = 0 \<and> r_fp ?r ! i = 1 \<and> r_td ?r ! i = 0)"
    if "i < Suc k" "i < n" for i
  proof (cases "i = k")
    case True
    then show ?thesis using k0 len k by simp
  next
    case False
    then show ?thesis using row_inv_done [OF inv, of i] that by simp
  qed
  show "r_tp ?r ! i = 0 \<and> r_fp ?r ! i = 0 \<and> r_td ?r ! i = 0" if "Suc k \<le> i" "i < n" for i
    using row_inv_todo [OF inv, of i] that by simp
  show "r_lock ?r ! h = - 1 \<or> (\<exists>i<Suc k. i < n \<and> r_lock ?r ! h = int i \<and> r_tp ?r ! i = 1)"
    if "h < G" for h
  proof (cases "h = g")
    case True
    then show ?thesis using len k g by auto
  next
    case False
    from row_inv_lock [OF inv that] show ?thesis
    proof
      assume "r_lock r ! h = - 1"
      then show ?thesis using False by simp
    next
      assume "\<exists>i<k. i < n \<and> r_lock r ! h = int i \<and> r_tp r ! i = 1"
      then obtain i where "i < k" "i < n" "r_lock r ! h = int i" "r_tp r ! i = 1" by blast
      then have "i < Suc k \<and> i < n \<and> r_lock ?r ! h = int i \<and> r_tp ?r ! i = 1"
        using False by simp
      then show ?thesis by blast
    qed
  qed
  show "\<exists>h<G. r_lock ?r ! h = int i" if "i < Suc k" "r_tp ?r ! i = 1" for i
  proof (cases "i = k")
    case True
    then show ?thesis using g len by auto
  next
    case False
    then have "i < k" "r_tp r ! i = 1" using that by simp_all
    from row_inv_claim [OF inv this] obtain h where h: "h < G" "r_lock r ! h = int i" by blast
    then have "h \<noteq> g" using free by auto
    then show ?thesis using h by auto
  qed
  show "h = h'" if "h < G" "h' < G" "0 \<le> r_lock ?r ! h" "r_lock ?r ! h = r_lock ?r ! h'" for h h'
  proof (cases "h = g \<or> h' = g")
    case True
    then show ?thesis using that old [of h] old [of h'] len g
      by (auto simp: nth_list_update split: if_splits)
  next
    case False
    then show ?thesis using row_inv_inj [OF inv that(1,2)] that(3,4) by simp
  qed
qed

section \<open>The context of a prediction\<close>

lemma set_argsort [simp]: "set (argsort xs) = {0..<length xs}"
  by (simp add: argsort_def)

lemma length_argsort [simp]: "length (argsort xs) = length xs"
  by (simp add: argsort_def)

lemma get_group_Inr:
  "get_group gt v = Inr this_gt \<Longrightarrow>
   this_gt = filter (\<lambda>ir. gt_video_id (snd ir) = v) (enumerate 0 gt) \<and> this_gt \<noteq> []"
  by (auto simp: get_group_def Let_def split: if_splits)

lemma get_group_nth:
  assumes "get_group gt v = Inr this_gt" "j < length this_gt"
  shows "fst (this_gt ! j) < length gt" "snd (this_gt ! j) = gt ! fst (this_gt ! j)"
    "gt_video_id (gt ! fst (this_gt ! j)) = v"
proof -
  have "this_gt ! j \<in> set (filter (\<lambda>ir. gt_video_id (snd ir) = v) (enumerate 0 gt))"
    using get_group_Inr [OF assms(1)] assms(2) nth_mem by metis
  then have "this_gt ! j \<in> set (enumerate 0 gt)" "gt_video_id (snd (this_gt ! j)) = v"
    by simp_all
  then show "fst (this_gt ! j) < length gt" "snd (this_gt ! j) = gt ! fst (this_gt ! j)"
    "gt_video_id (gt ! fst (this_gt ! j)) = v"
    by (auto simp: in_set_enumerate_eq)
qed

lemma gentime_pred_eq:
  "(if isna x \<or> isinf x then 0 else finite_value x) = nan_to_num x"
  by (cases x) simp_all

lemma make_ctx_sel [simp]:
  "c_idx (make_ctx iou k p this_gt) = k"
  "c_gt_index (make_ctx iou k p this_gt) = map fst this_gt"
  "c_tiou_arr (make_ctx iou k p this_gt) =
     map (\<lambda>ir. iou (pd_t_start p, pd_t_end p) (gt_t_start (snd ir), gt_t_end (snd ir))) this_gt"
  "c_gentime_pred (make_ctx iou k p this_gt) = nan_to_num (pd_gentime p)"
  "c_gentime_gt_arr (make_ctx iou k p this_gt) = map (\<lambda>ir. nan_to_num (gt_t_end (snd ir))) this_gt"
  "c_tiou_sorted_idx (make_ctx iou k p this_gt) = rev (argsort (c_tiou_arr (make_ctx iou k p this_gt)))"
  by (simp_all add: make_ctx_def Let_def gentime_pred_eq)

lemma candidates_idx: "candidates (make_ctx iou k p this_gt) = candidates (make_ctx iou 0 p this_gt)"
  by (simp add: candidates_def)

lemma candidates_set:
  assumes "get_group gt (pd_video_id p) = Inr this_gt"
    and "(g, x) \<in> set (candidates (make_ctx iou k p this_gt))"
  shows "g < length gt \<and> gt_video_id (gt ! g) = pd_video_id p \<and> x = tiou_of iou p gt g"
proof -
  from assms(2) obtain j where j: "j < length this_gt" "g = fst (this_gt ! j)"
    "x = iou (pd_t_start p, pd_t_end p) (gt_t_start (snd (this_gt ! j)), gt_t_end (snd (this_gt ! j)))"
    by (auto simp: candidates_def)
  with get_group_nth [OF assms(1) j(1)] show ?thesis
    by (simp add: tiou_of_def)
qed

lemma pred_row_spec:
  assumes "k < length (r_tp r)" "k < length (r_fp r)" "r_tp r ! k = 0" "r_fp r ! k = 0"
  shows "pred_row iou gt thr k p r
         = apply_outcome k (latency p gt) (pred_outcome iou gt thr p (r_lock r)) r"
proof (cases "get_group gt (pd_video_id p)")
  case (Inl e)
  then show ?thesis by (simp add: pred_row_def pred_outcome_def)
next
  case (Inr this_gt)
  let ?c = "make_ctx iou k p this_gt"
  have lat: "\<forall>j\<in>set (c_tiou_sorted_idx ?c).
      c_gentime_pred ?c - c_gentime_gt_arr ?c ! j = latency p gt (c_gt_index ?c ! j)"
  proof
    fix j assume "j \<in> set (c_tiou_sorted_idx ?c)"
    then have j: "j < length this_gt" by simp
    show "c_gentime_pred ?c - c_gentime_gt_arr ?c ! j = latency p gt (c_gt_index ?c ! j)"
      using get_group_nth(2) [OF Inr j] j by (simp add: latency_def)
  qed
  have "step_row ?c thr r = apply_outcome (c_idx ?c) (latency p gt)
          (spec_walk thr (\<lambda>g. r_lock r ! g \<ge> 0) (candidates ?c)) r"
    by (rule step_row_spec [OF lat]) (use assms in simp_all)
  then show ?thesis
    using Inr candidates_idx [of iou k p this_gt] by (simp add: pred_row_def pred_outcome_def)
qed

lemma pred_outcome_TruePositive:
  assumes "pred_outcome iou gt thr p lock = TruePositive g"
  shows "g < length gt" "\<not> 0 \<le> lock ! g" "gt_video_id (gt ! g) = pd_video_id p"
    "\<not> tiou_of iou p gt g < thr"
proof -
  from assms obtain this_gt where gg: "get_group gt (pd_video_id p) = Inr this_gt"
    and sw: "spec_walk thr (\<lambda>g. 0 \<le> lock ! g) (candidates (make_ctx iou 0 p this_gt)) = TruePositive g"
    by (auto simp: pred_outcome_def split: sum.splits)
  from spec_walk_TruePositive [OF sw] obtain x where
    x: "(g, x) \<in> set (candidates (make_ctx iou 0 p this_gt))" "\<not> 0 \<le> lock ! g" "\<not> x < thr"
    by blast
  from candidates_set [OF gg x(1)] x
  show "g < length gt" "\<not> 0 \<le> lock ! g" "gt_video_id (gt ! g) = pd_video_id p"
    "\<not> tiou_of iou p gt g < thr"
    by simp_all
qed

lemma row_inv_pred_row:
  assumes inv: "row_inv (length gt) n k r" and k: "k < n"
  shows "row_inv (length gt) n (Suc k) (pred_row iou gt thr k p r)"
proof -
  note len = row_inv_length [OF inv]
  note k0 = row_inv_todo [OF inv le_refl k]
  have eq: "pred_row iou gt thr k p r
         = apply_outcome k (latency p gt) (pred_outcome iou gt thr p (r_lock r)) r"
    by (rule pred_row_spec) (use len k k0 in simp_all)
  show ?thesis
  proof (cases "pred_outcome iou gt thr p (r_lock r)")
    case FalsePositive
    then show ?thesis using row_inv_FalsePositive [OF inv k] eq by simp
  next
    case (TruePositive g)
    from pred_outcome_TruePositive(1,2) [OF this] row_inv_TruePositive [OF inv k]
    show ?thesis using eq TruePositive by simp
  qed
qed

lemma loop_row_append:
  "loop_row iou gt thr (ps @ qs) r = loop_row iou gt thr qs (loop_row iou gt thr ps r)"
  by (induction ps arbitrary: r) auto

lemma length_sort_predictions [simp]: "length (sort_predictions pred) = length pred"
  by (simp add: sort_predictions_def)

lemma row_prefix_0: "row_prefix iou gt pred thr 0 = init_row (length gt) (length pred)"
  by (simp add: row_prefix_def)

lemma row_prefix_Suc:
  assumes "k < length pred"
  shows "row_prefix iou gt pred thr (Suc k)
         = pred_row iou gt thr k (sort_predictions pred ! k) (row_prefix iou gt pred thr k)"
proof -
  have "take (Suc k) (enumerate 0 (sort_predictions pred))
        = take k (enumerate 0 (sort_predictions pred)) @ [(k, sort_predictions pred ! k)]"
    using assms by (simp add: take_Suc_conv_app_nth nth_enumerate_eq)
  then show ?thesis by (simp add: row_prefix_def loop_row_append)
qed

lemma row_prefix_beyond:
  "length pred \<le> k \<Longrightarrow> row_prefix iou gt pred thr k = row_prefix iou gt pred thr (length pred)"
  by (simp add: row_prefix_def)

lemma row_prefix_inv:
  "k \<le> length pred \<Longrightarrow> row_inv (length gt) (length pred) k (row_prefix iou gt pred thr k)"
proof (induction k)
  case 0
  then show ?case by (simp add: row_prefix_0 row_inv_init)
next
  case (Suc k)
  then show ?case using row_inv_pred_row [of gt "length pred" k] by (simp add: row_prefix_Suc)
qed

lemma rows_init: "nrows T (init_state T G n)"
  by (simp add: nrows_def init_state_def zeros2_def)

lemma row_init: "t < T \<Longrightarrow> row t (init_state T G n) = init_row G n"
  by (simp add: row_def init_state_def init_row_def zeros2_def)

lemma row_match_prefix:
  "t < length ths \<Longrightarrow> row t (match_prefix iou gt pred ths k) = row_prefix iou gt pred (ths ! t) k"
  using prediction_loop_sim [OF rows_init, of t ths]
  by (simp add: match_prefix_def row_prefix_def row_init)

lemma match_predictions_prefix:
  "match_predictions iou gt pred ths = match_prefix iou gt pred ths (length pred)"
  by (simp add: match_predictions_def match_prefix_def)

lemma pred_row_frame:
  assumes inv: "row_inv (length gt) n k r" and k: "k < n"
  shows "i \<noteq> k \<Longrightarrow> r_tp (pred_row iou gt thr k p r) ! i = r_tp r ! i"
    and "i \<noteq> k \<Longrightarrow> r_fp (pred_row iou gt thr k p r) ! i = r_fp r ! i"
    and "i \<noteq> k \<Longrightarrow> r_td (pred_row iou gt thr k p r) ! i = r_td r ! i"
    and "0 \<le> r_lock r ! g \<Longrightarrow> r_lock (pred_row iou gt thr k p r) ! g = r_lock r ! g"
proof -
  note len = row_inv_length [OF inv]
  note k0 = row_inv_todo [OF inv le_refl k]
  have eq: "pred_row iou gt thr k p r
         = apply_outcome k (latency p gt) (pred_outcome iou gt thr p (r_lock r)) r"
    by (rule pred_row_spec) (use len k k0 in simp_all)
  show "i \<noteq> k \<Longrightarrow> r_tp (pred_row iou gt thr k p r) ! i = r_tp r ! i"
    unfolding eq by (cases "pred_outcome iou gt thr p (r_lock r)") simp_all
  show "i \<noteq> k \<Longrightarrow> r_fp (pred_row iou gt thr k p r) ! i = r_fp r ! i"
    unfolding eq by (cases "pred_outcome iou gt thr p (r_lock r)") simp_all
  show "i \<noteq> k \<Longrightarrow> r_td (pred_row iou gt thr k p r) ! i = r_td r ! i"
    unfolding eq by (cases "pred_outcome iou gt thr p (r_lock r)") simp_all
  show "r_lock (pred_row iou gt thr k p r) ! g = r_lock r ! g" if "0 \<le> r_lock r ! g"
  proof (cases "pred_outcome iou gt thr p (r_lock r)")
    case FalsePositive
    then show ?thesis unfolding eq by simp
  next
    case (TruePositive h)
    from pred_outcome_TruePositive(2) [OF this] that have "h \<noteq> g" by auto
    then show ?thesis unfolding eq TruePositive by simp
  qed
qed

lemma row_prefix_frame:
  assumes "i < k"
  shows "r_tp (row_prefix iou gt pred thr (k + d)) ! i = r_tp (row_prefix iou gt pred thr k) ! i
       \<and> r_fp (row_prefix iou gt pred thr (k + d)) ! i = r_fp (row_prefix iou gt pred thr k) ! i
       \<and> r_td (row_prefix iou gt pred thr (k + d)) ! i = r_td (row_prefix iou gt pred thr k) ! i"
proof (induction d)
  case 0
  then show ?case by simp
next
  case (Suc d)
  show ?case
  proof (cases "k + d < length pred")
    case True
    then have inv: "row_inv (length gt) (length pred) (k + d) (row_prefix iou gt pred thr (k + d))"
      by (simp add: row_prefix_inv)
    have ne: "i \<noteq> k + d" using assms by simp
    show ?thesis
      using Suc pred_row_frame(1-3) [OF inv True ne] by (simp add: row_prefix_Suc [OF True])
  next
    case False
    then have "row_prefix iou gt pred thr (k + Suc d) = row_prefix iou gt pred thr (k + d)"
      using row_prefix_beyond [of pred "k + Suc d"] row_prefix_beyond [of pred "k + d"] by simp
    then show ?thesis using Suc by simp
  qed
qed

lemma row_prefix_lock_mono:
  assumes "0 \<le> r_lock (row_prefix iou gt pred thr k) ! g"
  shows "r_lock (row_prefix iou gt pred thr (k + d)) ! g = r_lock (row_prefix iou gt pred thr k) ! g"
proof (induction d)
  case 0
  then show ?case by simp
next
  case (Suc d)
  show ?case
  proof (cases "k + d < length pred")
    case True
    then have inv: "row_inv (length gt) (length pred) (k + d) (row_prefix iou gt pred thr (k + d))"
      by (simp add: row_prefix_inv)
    have "0 \<le> r_lock (row_prefix iou gt pred thr (k + d)) ! g" using Suc assms by simp
    from pred_row_frame(4) [OF inv True this] show ?thesis
      using Suc by (simp add: row_prefix_Suc [OF True])
  next
    case False
    then have "row_prefix iou gt pred thr (k + Suc d) = row_prefix iou gt pred thr (k + d)"
      using row_prefix_beyond [of pred "k + Suc d"] row_prefix_beyond [of pred "k + d"] by simp
    then show ?thesis using Suc by simp
  qed
qed

lemma row_prefix_inv_min:
  "row_inv (length gt) (length pred) (min k (length pred)) (row_prefix iou gt pred thr k)"
proof (cases "k \<le> length pred")
  case True
  then show ?thesis by (simp add: row_prefix_inv min_def)
next
  case False
  then show ?thesis
    using row_prefix_beyond [of pred k iou gt thr] row_prefix_inv [of "length pred" pred gt iou thr]
    by (simp add: min_def)
qed

lemma cumsum_from_nth:
  "i < length xs \<Longrightarrow> cumsum_from a xs ! i = a + sum_list (take (Suc i) xs)"
proof (induction xs arbitrary: a i)
  case Nil
  then show ?case by simp
next
  case (Cons x xs)
  then show ?case by (cases i) simp_all
qed

lemma cumsum_nth: "i < length xs \<Longrightarrow> cumsum xs ! i = sum_list (take (Suc i) xs)"
  by (simp add: cumsum_def cumsum_from_nth)

lemma length_cumsum_from [simp]: "length (cumsum_from a xs) = length xs"
  by (induction xs arbitrary: a) simp_all

lemma length_cumsum [simp]: "length (cumsum xs) = length xs"
  by (simp add: cumsum_def)

lemma sum_take_complementary:
  fixes xs ys :: "real list"
  assumes "\<And>j. j < m \<Longrightarrow> xs ! j + ys ! j = 1" "m \<le> length xs" "m \<le> length ys"
  shows "sum_list (take m xs) + sum_list (take m ys) = real m"
  using assms
proof (induction m)
  case 0
  then show ?case by simp
next
  case (Suc m)
  have "sum_list (take m xs) + sum_list (take m ys) = real m"
    using Suc by simp
  moreover have "xs ! m + ys ! m = 1" using Suc.prems(1) by simp
  ultimately show ?case
    using Suc.prems(2,3) by (simp add: take_Suc_conv_app_nth)
qed

lemma get_group_Inl: "get_group gt v = Inl KeyError \<longleftrightarrow> v \<notin> gt_video_id ` set gt"
proof -
  have "set gt = snd ` set (enumerate 0 gt)"
    by (metis map_snd_enumerate set_map)
  then have "filter (\<lambda>ir. gt_video_id (snd ir) = v) (enumerate 0 gt) = [] \<longleftrightarrow> v \<notin> gt_video_id ` set gt"
    by (auto simp: filter_empty_conv)
  then show ?thesis by (simp add: get_group_def Let_def)
qed

lemma candidates_sorted: "sorted (rev (map snd (candidates (make_ctx iou k p this_gt))))"
proof -
  let ?xs = "c_tiou_arr (make_ctx iou k p this_gt)"
  have "map snd (candidates (make_ctx iou k p this_gt))
        = rev (map (\<lambda>j. ?xs ! j) (sort_key (\<lambda>j. ?xs ! j) [0..<length ?xs]))"
    by (simp add: candidates_def argsort_def rev_map comp_def del: make_ctx_sel(3))
  then show ?thesis by (simp del: make_ctx_sel(3))
qed

lemma candidates_mset:
  "mset (candidates (make_ctx iou k p this_gt))
   = mset (map (\<lambda>ir. (fst ir, iou (pd_t_start p, pd_t_end p)
                                   (gt_t_start (snd ir), gt_t_end (snd ir)))) this_gt)"
proof -
  let ?h = "\<lambda>ir. (fst ir, iou (pd_t_start p, pd_t_end p) (gt_t_start (snd ir), gt_t_end (snd ir)))"
  let ?c = "make_ctx iou k p this_gt"
  have "mset (candidates ?c)
        = image_mset (\<lambda>j. (c_gt_index ?c ! j, c_tiou_arr ?c ! j)) (mset (argsort (c_tiou_arr ?c)))"
    by (simp add: candidates_def del: make_ctx_sel(2,3))
  also have "mset (argsort (c_tiou_arr ?c)) = mset [0..<length this_gt]"
    by (simp add: argsort_def)
  also have "image_mset (\<lambda>j. (c_gt_index ?c ! j, c_tiou_arr ?c ! j)) (mset [0..<length this_gt])
        = mset (map (\<lambda>j. (c_gt_index ?c ! j, c_tiou_arr ?c ! j)) [0..<length this_gt])"
    by simp
  also have "map (\<lambda>j. (c_gt_index ?c ! j, c_tiou_arr ?c ! j)) [0..<length this_gt]
        = map (\<lambda>j. ?h (this_gt ! j)) [0..<length this_gt]"
    by (rule map_cong) simp_all
  also have "\<dots> = map ?h (map (\<lambda>j. this_gt ! j) [0..<length this_gt])"
    by (simp only: map_map comp_def)
  also have "\<dots> = map ?h this_gt"
    by (simp only: map_nth)
  finally show ?thesis .
qed

section \<open>The order of the predictions\<close>

lemma sort_predictions_with_mset:
  assumes "mset (asort (map pd_score prediction)) = mset [0..<length prediction]"
  shows "mset (sort_predictions_with asort prediction) = mset prediction"
proof -
  have "mset (sort_predictions_with asort prediction)
        = image_mset (\<lambda>i. prediction ! i) (mset (asort (map pd_score prediction)))"
    by (simp add: sort_predictions_with_def)
  also have "\<dots> = mset (map (\<lambda>i. prediction ! i) [0..<length prediction])"
    unfolding assms by simp
  finally show ?thesis by (simp add: map_nth)
qed

lemma sort_predictions_with_sorted:
  assumes "mset (asort (map pd_score prediction)) = mset [0..<length prediction]"
    and "sorted (map (\<lambda>i. map pd_score prediction ! i) (asort (map pd_score prediction)))"
  shows "sorted (rev (map pd_score (sort_predictions_with asort prediction)))"
proof -
  let ?L = "asort (map pd_score prediction)"
  have "set ?L = set [0..<length prediction]"
    using assms(1) by (metis set_mset_mset)
  then have in_range: "i < length prediction" if "i \<in> set ?L" for i
    using that by simp
  have "map (\<lambda>i. pd_score (prediction ! i)) ?L = map (\<lambda>i. map pd_score prediction ! i) ?L"
    by (rule map_cong) (use in_range in simp_all)
  then have "rev (map pd_score (sort_predictions_with asort prediction))
        = map (\<lambda>i. map pd_score prediction ! i) ?L"
    by (simp add: sort_predictions_with_def rev_map comp_def)
  then show ?thesis using assms(2) by simp
qed

lemma sort_predictions_with_argsort:
  "sort_predictions prediction = sort_predictions_with argsort prediction"
  by (simp add: sort_predictions_def sort_predictions_with_def)

lemma argsort_ascending:
  "mset (argsort xs) = mset [0..<length xs]" "sorted (map (\<lambda>i. xs ! i) (argsort xs))"
  by (simp_all add: argsort_def)

section \<open>Aggregation and the wrapper\<close>

lemma last_cumsum_from: "xs \<noteq> [] \<Longrightarrow> last (cumsum_from a xs) = a + sum_list xs"
proof (induction xs arbitrary: a)
  case Nil
  then show ?case by simp
next
  case (Cons x xs)
  then show ?case by (cases xs) simp_all
qed

lemma last_cumsum: "xs \<noteq> [] \<Longrightarrow> last (cumsum xs) = sum_list xs"
  by (simp add: cumsum_def last_cumsum_from)

lemma cumsum_eq_Nil [simp]: "cumsum xs = [] \<longleftrightarrow> xs = []"
  by (cases xs) (simp_all add: cumsum_def)

lemma compute_lengths:
  "length (fst (compute_average_precision_detection ipr iou gt pred ths)) = length ths"
  "length (fst (snd (compute_average_precision_detection ipr iou gt pred ths))) = length ths"
  "length (snd (snd (compute_average_precision_detection ipr iou gt pred ths))) = length ths"
  by (simp_all add: compute_average_precision_detection_def Let_def)

lemma compute_nonempty:
  assumes "pred \<noteq> []" "gt \<noteq> []" "t < length ths"
  shows "fst (snd (compute_average_precision_detection ipr iou gt pred ths)) ! t
         = (if sum_list (tp (match_predictions iou gt pred ths) ! t) = 0 then 0
            else sum_list (timediff (match_predictions iou gt pred ths) ! t))"
    and "snd (snd (compute_average_precision_detection ipr iou gt pred ths)) ! t
         = sum_list (tp (match_predictions iou gt pred ths) ! t)"
proof -
  let ?s = "match_predictions iou gt pred ths"
  let ?r = "row_prefix iou gt pred (ths ! t) (length pred)"
  have r: "row t ?s = ?r"
    using row_match_prefix [OF assms(3)] by (simp add: match_predictions_prefix)
  have inv: "row_inv (length gt) (length pred) (length pred) ?r"
    by (simp add: row_prefix_inv)
  have sel: "tp ?s ! t = r_tp ?r" "timediff ?s ! t = r_td ?r"
    using r [symmetric] by simp_all
  have ne: "tp ?s ! t \<noteq> []" "timediff ?s ! t \<noteq> []"
    unfolding sel using row_inv_length [OF inv] assms(1) by auto
  show "fst (snd (compute_average_precision_detection ipr iou gt pred ths)) ! t
         = (if sum_list (tp ?s ! t) = 0 then 0 else sum_list (timediff ?s ! t))"
    using assms ne
    by (simp add: compute_average_precision_detection_def Let_def aggregate_threshold_def
        last_cumsum)
  show "snd (snd (compute_average_precision_detection ipr iou gt pred ths)) ! t
         = sum_list (tp ?s ! t)"
    using assms ne
    by (simp add: compute_average_precision_detection_def Let_def aggregate_threshold_def
        last_cumsum)
qed

lemma sum_list_indicator:
  fixes xs :: "real list"
  assumes "\<And>i. i < length xs \<Longrightarrow> xs ! i = 1 \<or> xs ! i = 0"
  shows "sum_list xs = real (length (filter (\<lambda>i. xs ! i = 1) [0..<length xs]))"
  using assms
proof (induction xs rule: rev_induct)
  case Nil
  then show ?case by simp
next
  case (snoc x xs)
  have ih: "sum_list xs = real (length (filter (\<lambda>i. xs ! i = 1) [0..<length xs]))"
  proof (rule snoc.IH)
    fix i assume "i < length xs"
    then show "xs ! i = 1 \<or> xs ! i = 0"
      using snoc.prems [of i] by (simp add: nth_append)
  qed
  have f: "filter (\<lambda>i. (xs @ [x]) ! i = 1) [0..<length xs] = filter (\<lambda>i. xs ! i = 1) [0..<length xs]"
    by (rule filter_cong) (auto simp: nth_append)
  have x: "x = 1 \<or> x = 0" using snoc.prems [of "length xs"] by simp
  then show ?case using ih f by auto
qed

lemma sum_list_masked:
  fixes xs ys :: "real list"
  assumes "length ys = length xs" "\<And>i. i < length xs \<Longrightarrow> xs ! i \<noteq> 1 \<Longrightarrow> ys ! i = 0"
  shows "sum_list ys = (\<Sum>i\<leftarrow>filter (\<lambda>i. xs ! i = 1) [0..<length xs]. ys ! i)"
  using assms
proof (induction xs arbitrary: ys rule: rev_induct)
  case Nil
  then show ?case by simp
next
  case (snoc x xs)
  from snoc.prems(1) obtain y ys' where ys: "ys = ys' @ [y]" "length ys' = length xs"
    by (cases ys rule: rev_cases) auto
  define F where "F = filter (\<lambda>i. xs ! i = 1) [0..<length xs]"
  have ih: "sum_list ys' = sum_list (map (\<lambda>i. ys' ! i) F)"
    unfolding F_def
  proof (rule snoc.IH [OF ys(2)])
    fix i assume i: "i < length xs" "xs ! i \<noteq> 1"
    then show "ys' ! i = 0"
      using snoc.prems(2) [of i] ys by (simp add: nth_append)
  qed
  have f: "filter (\<lambda>i. (xs @ [x]) ! i = 1) [0..<length xs] = F"
    unfolding F_def by (rule filter_cong) (auto simp: nth_append)
  have m: "map (\<lambda>i. ys ! i) F = map (\<lambda>i. ys' ! i) F"
    unfolding F_def by (rule map_cong) (auto simp: nth_append ys)
  have y: "x \<noteq> 1 \<Longrightarrow> y = 0"
    using snoc.prems(2) [of "length xs"] ys by (simp add: nth_append)
  have last: "ys ! length xs = y" using ys by (simp add: nth_append)
  have "filter (\<lambda>i. (xs @ [x]) ! i = 1) [0..<length (xs @ [x])]
        = F @ (if x = 1 then [length xs] else [])"
    using f by simp
  then have "(\<Sum>i\<leftarrow>filter (\<lambda>i. (xs @ [x]) ! i = 1) [0..<length (xs @ [x])]. ys ! i)
        = sum_list (map (\<lambda>i. ys ! i) F) + (if x = 1 then ys ! length xs else 0)"
    by simp
  also have "\<dots> = sum_list (map (\<lambda>i. ys' ! i) F) + y"
    unfolding m last using y by simp
  also have "\<dots> = sum_list ys" using ih ys(1) by simp
  finally show ?case by simp
qed

lemma compute_sum_of_latencies:
  assumes "pred \<noteq> []" "gt \<noteq> []" "t < length ths"
  shows "snd (snd (compute_average_precision_detection ipr iou gt pred ths)) ! t
         = real (length (filter (\<lambda>i. tp (match_predictions iou gt pred ths) ! t ! i = 1)
                           [0..<length pred]))"
    and "fst (snd (compute_average_precision_detection ipr iou gt pred ths)) ! t
         = (\<Sum>i\<leftarrow>filter (\<lambda>i. tp (match_predictions iou gt pred ths) ! t ! i = 1)
                     [0..<length pred]. timediff (match_predictions iou gt pred ths) ! t ! i)"
proof -
  let ?s = "match_predictions iou gt pred ths"
  let ?r = "row_prefix iou gt pred (ths ! t) (length pred)"
  have r: "row t ?s = ?r"
    using row_match_prefix [OF assms(3)] by (simp add: match_predictions_prefix)
  have inv: "row_inv (length gt) (length pred) (length pred) ?r"
    by (simp add: row_prefix_inv)
  have sel: "tp ?s ! t = r_tp ?r" "timediff ?s ! t = r_td ?r"
    using r [symmetric] by simp_all
  note len = row_inv_length [OF inv]
  have ind: "r_tp ?r ! i = 1 \<or> r_tp ?r ! i = 0" if "i < length (r_tp ?r)" for i
    using row_inv_done [OF inv, of i] that len by auto
  have msk: "r_td ?r ! i = 0" if "i < length (r_tp ?r)" "r_tp ?r ! i \<noteq> 1" for i
    using row_inv_done [OF inv, of i] that len by auto
  have cnt: "sum_list (r_tp ?r) = real (length (filter (\<lambda>i. r_tp ?r ! i = 1) [0..<length pred]))"
    using sum_list_indicator [of "r_tp ?r"] ind len by simp
  have td: "sum_list (r_td ?r) = (\<Sum>i\<leftarrow>filter (\<lambda>i. r_tp ?r ! i = 1) [0..<length pred]. r_td ?r ! i)"
    using sum_list_masked [of "r_td ?r" "r_tp ?r"] msk len by simp
  have zero: "sum_list (r_td ?r) = 0" if "sum_list (r_tp ?r) = 0"
  proof -
    from that cnt have "filter (\<lambda>i. r_tp ?r ! i = 1) [0..<length pred] = []" by simp
    with td show ?thesis by simp
  qed
  show "snd (snd (compute_average_precision_detection ipr iou gt pred ths)) ! t
         = real (length (filter (\<lambda>i. tp ?s ! t ! i = 1) [0..<length pred]))"
    unfolding compute_nonempty(2) [OF assms] sel by (rule cnt)
  show "fst (snd (compute_average_precision_detection ipr iou gt pred ths)) ! t
         = (\<Sum>i\<leftarrow>filter (\<lambda>i. tp ?s ! t ! i = 1) [0..<length pred]. timediff ?s ! t ! i)"
    unfolding compute_nonempty(1) [OF assms] sel using zero td by simp
qed

lemma shape_zeros2: "shape T N (zeros2 T N)"
  by (simp add: shape_def zeros2_def list_all_iff)

lemma shape_nth: "shape T N m \<Longrightarrow> t < T \<Longrightarrow> length (m ! t) = N"
  by (auto simp: shape_def list_all_length)

lemma shape_set_column:
  assumes "shape T N m" "length col = T"
  shows "shape T N (set_column m c col)"
  using assms by (auto simp: shape_def set_column_def list_all_length)

lemma set_column_nth:
  assumes "shape T N m" "length col = T" "t < T" "c < N"
  shows "set_column m c col ! t ! c' = (if c' = c then col ! t else m ! t ! c')"
  using assms shape_nth [OF assms(1,3)]
  by (auto simp: set_column_def shape_def)

lemma per_class_lengths:
  "length (fst (per_class ipr iou ths gt pred c)) = length ths"
  "length (fst (snd (per_class ipr iou ths gt pred c))) = length ths"
  "length (snd (snd (per_class ipr iou ths gt pred c))) = length ths"
  by (simp_all add: per_class_def compute_lengths)

lemma class_loop_columns:
  assumes "list_all (\<lambda>c. c < N) (map snd items)" "distinct (map snd items)"
    and "shape (length ths) N ap" "shape (length ths) N tdiff" "shape (length ths) N cnt_tp"
  shows "\<exists>ap' tdiff' cnt_tp'.
           class_loop ipr iou ths gt pred N items (ap, tdiff, cnt_tp) = Inr (ap', tdiff', cnt_tp')
           \<and> shape (length ths) N ap' \<and> shape (length ths) N tdiff' \<and> shape (length ths) N cnt_tp'
           \<and> (\<forall>t<length ths. \<forall>c<N.
                 ap' ! t ! c = (if c \<in> set (map snd items)
                                then fst (per_class ipr iou ths gt pred c) ! t else ap ! t ! c)
               \<and> tdiff' ! t ! c = (if c \<in> set (map snd items)
                                then fst (snd (per_class ipr iou ths gt pred c)) ! t
                                else tdiff ! t ! c)
               \<and> cnt_tp' ! t ! c = (if c \<in> set (map snd items)
                                then snd (snd (per_class ipr iou ths gt pred c)) ! t
                                else cnt_tp ! t ! c))"
  using assms
proof (induction items arbitrary: ap tdiff cnt_tp)
  case Nil
  then show ?case by simp
next
  case (Cons item items)
  obtain activity cidx where item: "item = (activity, cidx)" by (cases item)
  obtain a d c where res: "per_class ipr iou ths gt pred cidx = (a, d, c)"
    by (cases "per_class ipr iou ths gt pred cidx")
  have len: "length a = length ths" "length d = length ths" "length c = length ths"
    using per_class_lengths [of ipr iou ths gt pred cidx] by (simp_all add: res)
  have cidx: "cidx < N" "cidx \<notin> set (map snd items)"
    using Cons.prems(1,2) by (simp_all add: item)
  let ?ap = "set_column ap cidx a" and ?td = "set_column tdiff cidx d"
    and ?cn = "set_column cnt_tp cidx c"
  have sh: "shape (length ths) N ?ap" "shape (length ths) N ?td" "shape (length ths) N ?cn"
    using Cons.prems(3-5) len by (simp_all add: shape_set_column)
  have rest: "list_all (\<lambda>c. c < N) (map snd items)" "distinct (map snd items)"
    using Cons.prems(1,2) by (simp_all add: item)
  from Cons.IH [OF rest sh] obtain ap' tdiff' cnt_tp' where
    r: "class_loop ipr iou ths gt pred N items (?ap, ?td, ?cn) = Inr (ap', tdiff', cnt_tp')"
    and sh': "shape (length ths) N ap'" "shape (length ths) N tdiff'" "shape (length ths) N cnt_tp'"
    and v: "\<And>t k. t < length ths \<Longrightarrow> k < N \<Longrightarrow>
                 ap' ! t ! k = (if k \<in> set (map snd items)
                                then fst (per_class ipr iou ths gt pred k) ! t else ?ap ! t ! k)
               \<and> tdiff' ! t ! k = (if k \<in> set (map snd items)
                                then fst (snd (per_class ipr iou ths gt pred k)) ! t
                                else ?td ! t ! k)
               \<and> cnt_tp' ! t ! k = (if k \<in> set (map snd items)
                                then snd (snd (per_class ipr iou ths gt pred k)) ! t
                                else ?cn ! t ! k)"
    by blast
  have step: "class_loop ipr iou ths gt pred N (item # items) (ap, tdiff, cnt_tp)
              = Inr (ap', tdiff', cnt_tp')"
    using r cidx(1) res by (simp add: item per_class_def)
  have vals: "ap' ! t ! k = (if k \<in> set (map snd (item # items))
                                then fst (per_class ipr iou ths gt pred k) ! t else ap ! t ! k)
               \<and> tdiff' ! t ! k = (if k \<in> set (map snd (item # items))
                                then fst (snd (per_class ipr iou ths gt pred k)) ! t
                                else tdiff ! t ! k)
               \<and> cnt_tp' ! t ! k = (if k \<in> set (map snd (item # items))
                                then snd (snd (per_class ipr iou ths gt pred k)) ! t
                                else cnt_tp ! t ! k)"
    if "t < length ths" "k < N" for t k
  proof (cases "k = cidx")
    case True
    then show ?thesis
      using v [OF that] cidx that res
        set_column_nth [OF Cons.prems(3) len(1) that(1) cidx(1), of k]
        set_column_nth [OF Cons.prems(4) len(2) that(1) cidx(1), of k]
        set_column_nth [OF Cons.prems(5) len(3) that(1) cidx(1), of k]
      by (simp add: item)
  next
    case False
    then show ?thesis
      using v [OF that] cidx that
        set_column_nth [OF Cons.prems(3) len(1) that(1) cidx(1), of k]
        set_column_nth [OF Cons.prems(4) len(2) that(1) cidx(1), of k]
        set_column_nth [OF Cons.prems(5) len(3) that(1) cidx(1), of k]
      by (simp add: item)
  qed
  show ?case using step sh' vals by blast
qed

lemma sum_list_nth_upt: "sum_list xs = (\<Sum>c\<leftarrow>[0..<length xs]. xs ! c)"
  by (simp add: map_nth)

lemma wrapper_result:
  assumes "map snd activity_index = [0..<length activity_index]"
  shows "\<exists>ap final_tdiff.
           wrapper_compute_average_precision ipr iou ths activity_index gt pred
             = Inr (ap, final_tdiff)
           \<and> shape (length ths) (length activity_index) ap
           \<and> length final_tdiff = length ths
           \<and> (\<forall>t<length ths. \<forall>c<length activity_index.
                 ap ! t ! c = fst (per_class ipr iou ths gt pred c) ! t)
           \<and> (\<forall>t<length ths.
                 final_tdiff ! t =
                   (if (\<Sum>c\<leftarrow>[0..<length activity_index].
                          snd (snd (per_class ipr iou ths gt pred c)) ! t) > 0
                    then (\<Sum>c\<leftarrow>[0..<length activity_index].
                            fst (snd (per_class ipr iou ths gt pred c)) ! t)
                         / (\<Sum>c\<leftarrow>[0..<length activity_index].
                              snd (snd (per_class ipr iou ths gt pred c)) ! t)
                    else 0))"
proof -
  let ?N = "length activity_index" and ?T = "length ths"
  have a1: "list_all (\<lambda>c. c < ?N) (map snd activity_index)"
    unfolding assms by (simp add: list_all_iff)
  have a2: "distinct (map snd activity_index)"
    unfolding assms by simp
  from class_loop_columns [OF a1 a2 shape_zeros2 shape_zeros2 shape_zeros2,
      where ths = ths and ipr = ipr and iou = iou and gt = gt and pred = pred]
  obtain ap tdiff cnt_tp where
    r: "class_loop ipr iou ths gt pred ?N activity_index
          (zeros2 ?T ?N, zeros2 ?T ?N, zeros2 ?T ?N) = Inr (ap, tdiff, cnt_tp)"
    and sh: "shape ?T ?N ap" "shape ?T ?N tdiff" "shape ?T ?N cnt_tp"
    and v: "\<And>t c. t < ?T \<Longrightarrow> c < ?N \<Longrightarrow>
              ap ! t ! c = fst (per_class ipr iou ths gt pred c) ! t
              \<and> tdiff ! t ! c = fst (snd (per_class ipr iou ths gt pred c)) ! t
              \<and> cnt_tp ! t ! c = snd (snd (per_class ipr iou ths gt pred c)) ! t"
    unfolding assms by (simp add: assms) blast
  define final_tdiff where
    "final_tdiff = map2 (\<lambda>s n. if n > 0 then s / n else 0) (map sum_list tdiff) (map sum_list cnt_tp)"
  have w: "wrapper_compute_average_precision ipr iou ths activity_index gt pred
             = Inr (ap, final_tdiff)"
    using r by (simp add: wrapper_compute_average_precision_def Let_def final_tdiff_def)
  have lens: "length tdiff = ?T" "length cnt_tp = ?T"
    using sh by (simp_all add: shape_def)
  have sums: "sum_list (tdiff ! t) = (\<Sum>c\<leftarrow>[0..<?N]. fst (snd (per_class ipr iou ths gt pred c)) ! t)"
    "sum_list (cnt_tp ! t) = (\<Sum>c\<leftarrow>[0..<?N]. snd (snd (per_class ipr iou ths gt pred c)) ! t)"
    if "t < ?T" for t
  proof -
    have "sum_list (tdiff ! t) = (\<Sum>c\<leftarrow>[0..<?N]. tdiff ! t ! c)"
      using sum_list_nth_upt [of "tdiff ! t"] shape_nth [OF sh(2) that] by simp
    also have "map (\<lambda>c. tdiff ! t ! c) [0..<?N]
        = map (\<lambda>c. fst (snd (per_class ipr iou ths gt pred c)) ! t) [0..<?N]"
      by (rule map_cong) (use v [OF that] in simp_all)
    finally show "sum_list (tdiff ! t) = (\<Sum>c\<leftarrow>[0..<?N]. fst (snd (per_class ipr iou ths gt pred c)) ! t)" .
    have "sum_list (cnt_tp ! t) = (\<Sum>c\<leftarrow>[0..<?N]. cnt_tp ! t ! c)"
      using sum_list_nth_upt [of "cnt_tp ! t"] shape_nth [OF sh(3) that] by simp
    also have "map (\<lambda>c. cnt_tp ! t ! c) [0..<?N]
        = map (\<lambda>c. snd (snd (per_class ipr iou ths gt pred c)) ! t) [0..<?N]"
      by (rule map_cong) (use v [OF that] in simp_all)
    finally show "sum_list (cnt_tp ! t) = (\<Sum>c\<leftarrow>[0..<?N]. snd (snd (per_class ipr iou ths gt pred c)) ! t)" .
  qed
  have ft: "final_tdiff ! t = (if sum_list (cnt_tp ! t) > 0
              then sum_list (tdiff ! t) / sum_list (cnt_tp ! t) else 0)" if "t < ?T" for t
    using that lens by (simp add: final_tdiff_def)
  have "length final_tdiff = ?T" using lens by (simp add: final_tdiff_def)
  then show ?thesis
    using w sh(1) v ft sums by (intro exI [of _ ap] exI [of _ final_tdiff]) simp
qed

section \<open>Loading the ground truth\<close>

lemma first_seen_snoc:
  "first_seen (ls @ [l]) = (if l \<in> set ls then first_seen ls else first_seen ls @ [l])"
  by (simp add: first_seen_def)

lemma set_first_seen [simp]: "set (first_seen ls) = set ls"
  by (simp add: first_seen_def)

lemma distinct_first_seen [simp]: "distinct (first_seen ls)"
  by (simp add: first_seen_def)

lemma first_seen_Nil [simp]: "first_seen [] = []"
  by (simp add: first_seen_def)

lemma map_of_snoc_other:
  "k \<in> fst ` set ai \<Longrightarrow> map_of (ai @ [(l, c)]) k = map_of ai k"
  by (auto simp: map_add_def map_of_eq_None_iff split: option.splits)

lemma import_annotations_inv:
  assumes "map fst ai = first_seen ls" "map snd ai = [0..<cidx]"
    and "map (map_of ai) ls = map (\<lambda>r. Some (gt_label r)) rows"
  shows "case import_annotations v anns (ai, cidx, rows) of
           (ai', cidx', rows') \<Rightarrow>
             map fst ai' = first_seen (ls @ map ann_label anns)
             \<and> map snd ai' = [0..<cidx']
             \<and> map (map_of ai') (ls @ map ann_label anns) = map (\<lambda>r. Some (gt_label r)) rows'"
  using assms
proof (induction anns arbitrary: ai cidx rows ls)
  case Nil
  then show ?case by simp
next
  case (Cons ann anns)
  let ?l = "ann_label ann"
  have keys: "fst ` set ai = set ls"
    using Cons.prems(1) by (metis set_first_seen set_map)
  show ?case
  proof (cases "map_of ai ?l")
    case None
    then have new: "?l \<notin> set ls" using keys by (simp add: map_of_eq_None_iff)
    let ?ai = "ai @ [(?l, cidx)]"
    let ?rows = "rows @ [\<lparr>gt_video_id = v, gt_t_start = fst (ann_segment ann),
                      gt_t_end = snd (ann_segment ann), gt_label = cidx\<rparr>]"
    have 1: "map fst ?ai = first_seen (ls @ [?l])"
      using Cons.prems(1) new by (simp add: first_seen_snoc)
    have 2: "map snd ?ai = [0..<cidx + 1]"
      using Cons.prems(2) by simp
    have "map (map_of ?ai) ls = map (map_of ai) ls"
    proof (rule map_cong [OF refl])
      fix k assume "k \<in> set ls"
      then have "k \<in> fst ` set ai" using keys by simp
      then show "map_of ?ai k = map_of ai k" by (rule map_of_snoc_other)
    qed
    moreover have "map_of ?ai ?l = Some cidx"
      using None by (simp add: map_add_def)
    ultimately have 3: "map (map_of ?ai) (ls @ [?l]) = map (\<lambda>r. Some (gt_label r)) ?rows"
      using Cons.prems(3) by simp
    from Cons.IH [OF 1 2 3] None show ?thesis by simp
  next
    case (Some c)
    then have old: "?l \<in> set ls" using keys by (metis map_of_eq_None_iff option.distinct(1))
    let ?rows = "rows @ [\<lparr>gt_video_id = v, gt_t_start = fst (ann_segment ann),
                      gt_t_end = snd (ann_segment ann), gt_label = c\<rparr>]"
    have 1: "map fst ai = first_seen (ls @ [?l])"
      using Cons.prems(1) old by (simp add: first_seen_snoc)
    have 3: "map (map_of ai) (ls @ [?l]) = map (\<lambda>r. Some (gt_label r)) ?rows"
      using Cons.prems(3) Some by simp
    from Cons.IH [OF 1 Cons.prems(2) 3] Some show ?thesis by simp
  qed
qed

lemma import_videos_inv:
  assumes "map fst ai = first_seen ls" "map snd ai = [0..<cidx]"
    and "map (map_of ai) ls = map (\<lambda>r. Some (gt_label r)) rows"
  shows "case import_videos subset_name vs (ai, cidx, rows) of
           (ai', cidx', rows') \<Rightarrow>
             map fst ai' = first_seen (ls @ loaded_labels subset_name vs)
             \<and> map snd ai' = [0..<cidx']
             \<and> map (map_of ai') (ls @ loaded_labels subset_name vs)
               = map (\<lambda>r. Some (gt_label r)) rows'"
  using assms
proof (induction vs arbitrary: ai cidx rows ls)
  case Nil
  then show ?case by (simp add: loaded_labels_def)
next
  case (Cons e vs)
  obtain videoid v where e: "e = (videoid, v)" by (cases e)
  show ?case
  proof (cases "subset_in subset_name (v_subset v)")
    case True
    obtain ai1 cidx1 rows1 where
      st: "import_annotations videoid (v_annotations v) (ai, cidx, rows) = (ai1, cidx1, rows1)"
      by (cases "import_annotations videoid (v_annotations v) (ai, cidx, rows)")
    from import_annotations_inv [OF Cons.prems, where v = videoid and anns = "v_annotations v"] st
    have 1: "map fst ai1 = first_seen (ls @ map ann_label (v_annotations v))"
      and 2: "map snd ai1 = [0..<cidx1]"
      and 3: "map (map_of ai1) (ls @ map ann_label (v_annotations v))
               = map (\<lambda>r. Some (gt_label r)) rows1"
      by simp_all
    have ll: "loaded_labels subset_name ((videoid, v) # vs)
              = map ann_label (v_annotations v) @ loaded_labels subset_name vs"
      using True by (simp add: loaded_labels_def)
    from Cons.IH [OF 1 2 3] show ?thesis
      using True st by (simp add: e ll)
  next
    case False
    have ll: "loaded_labels subset_name ((videoid, v) # vs) = loaded_labels subset_name vs"
      using False by (simp add: loaded_labels_def)
    from Cons.IH [OF Cons.prems] show ?thesis
      using False by (simp add: e ll)
  qed
qed

lemma import_ground_truth_inv:
  assumes "import_ground_truth subset_name database = (ground_truth, activity_index, cidx)"
  shows "map fst activity_index = first_seen (loaded_labels subset_name database)"
    and "map snd activity_index = [0..<cidx]"
    and "map (map_of activity_index) (loaded_labels subset_name database)
         = map (\<lambda>r. Some (gt_label r)) ground_truth"
proof -
  have st: "import_videos subset_name database ([], 0, []) = (activity_index, cidx, ground_truth)"
    using assms by (auto simp: import_ground_truth_def split: prod.splits)
  have i: "map fst [] = first_seen ([] :: string list)" "map snd ([] :: (string \<times> nat) list) = [0..<0]"
    "map (map_of ([] :: (string \<times> nat) list)) [] = map (\<lambda>r. Some (gt_label r)) []"
    by simp_all
  from import_videos_inv [OF i, where subset_name = subset_name and vs = database] st
  show "map fst activity_index = first_seen (loaded_labels subset_name database)"
    and "map snd activity_index = [0..<cidx]"
    and "map (map_of activity_index) (loaded_labels subset_name database)
         = map (\<lambda>r. Some (gt_label r)) ground_truth"
    by simp_all
qed

lemma zip_map_fst_snd': "zip (map fst xs) (map snd xs) = xs"
  by (induction xs) auto

lemma bij_index_of_distinct:
  assumes "distinct xs"
  shows "bij_betw (\<lambda>x. the (map_of (zip xs [0..<length xs]) x)) (set xs) {0..<length xs}"
proof (rule bij_betw_byWitness [where f' = "\<lambda>i. xs ! i"])
  have v: "map_of (zip xs [0..<length xs]) (xs ! i) = Some i" if "i < length xs" for i
    using map_of_zip_nth [of xs "[0..<length xs]" i] assms that by simp
  show "\<forall>x\<in>set xs. xs ! the (map_of (zip xs [0..<length xs]) x) = x"
    using v by (auto simp: in_set_conv_nth)
  show "\<forall>i\<in>{0..<length xs}. the (map_of (zip xs [0..<length xs]) (xs ! i)) = i"
    using v by simp
  show "(\<lambda>x. the (map_of (zip xs [0..<length xs]) x)) ` set xs \<subseteq> {0..<length xs}"
    using v by (auto simp: in_set_conv_nth)
  show "(\<lambda>i. xs ! i) ` {0..<length xs} \<subseteq> set xs"
    by auto
qed

section \<open>The decoder\<close>

lemma decode_anchor_ok:
  assumes "anc_idx < length cls_anc" "anc_idx < length reg_anc"
    and "2 \<le> length (reg_anc ! anc_idx)"
    and "length (cls_anc ! anc_idx) - 1 \<le> length label_name"
  shows "decode_anchor threshold label_name frame_to_time anchors idx cls_anc reg_anc anc_idx
         = Inr (anchor_candidates threshold label_name frame_to_time anchors idx cls_anc reg_anc
                  anc_idx)"
proof -
  have "\<not> list_ex (\<lambda>label. label \<ge> length label_name)
           (filter (\<lambda>l. cls_anc ! anc_idx ! l > threshold) [0..<length (cls_anc ! anc_idx) - 1])"
    using assms(4) by (auto simp: list_ex_iff)
  then show ?thesis
    using assms(1-3)
    by (simp add: decode_anchor_def anchor_candidates_def Let_def)
qed

lemma decode_anchors_ok:
  assumes "\<forall>a\<in>set as. a < length cls_anc \<and> a < length reg_anc
             \<and> 2 \<le> length (reg_anc ! a) \<and> length (cls_anc ! a) - 1 \<le> length label_name"
  shows "decode_anchors threshold label_name frame_to_time anchors idx cls_anc reg_anc as acc
         = Inr (acc @ concat (map (anchor_candidates threshold label_name frame_to_time anchors
                                     idx cls_anc reg_anc) as))"
  using assms
proof (induction as arbitrary: acc)
  case Nil
  then show ?case by simp
next
  case (Cons a as)
  then show ?case by (simp add: decode_anchor_ok)
qed

section \<open>The online refiner\<close>

lemma check_overlap_proposal_None:
  "check_overlap_proposal accepted p overlapThresh = None
   \<longleftrightarrow> list_all (\<lambda>q. \<not> temporal_iou (p_segment p) (p_segment q) > overlapThresh) accepted"
  by (auto simp: check_overlap_proposal_def find_None_iff list_all_iff)

lemma spec_accept_append:
  "spec_accept st no cf (xs @ ys) acc = spec_accept st no cf ys (spec_accept st no cf xs acc)"
  by (induction xs arbitrary: acc) auto

lemma spec_accept_prefix: "prefix acc (spec_accept st no cf xs acc)"
proof (induction xs arbitrary: acc)
  case Nil
  then show ?case by simp
next
  case (Cons x xs)
  obtain cls p where x: "x = (cls, p)" by (cases x)
  let ?a = "if cf ! cls > st \<and> no acc p then acc @ [p] else acc"
  have "prefix acc ?a" by simp
  moreover have "prefix ?a (spec_accept st no cf xs ?a)" by (rule Cons)
  ultimately have "prefix acc (spec_accept st no cf xs ?a)"
    by (rule prefix_order.order_trans)
  then show ?case by (simp add: x)
qed

lemma spec_accept_closed_gate:
  "\<not> cf ! cls > st \<Longrightarrow> spec_accept st no cf (map (Pair cls) ps) acc = acc"
  by (induction ps) auto

lemma accept_proposals_spec:
  assumes "cls < length label_name" "cf ! cls > st"
  shows "accept_proposals chk ot label_name cls pool acc
         = Inr (spec_accept st (\<lambda>a p. chk a p ot = None) cf
                  (map (Pair cls) (filter (\<lambda>p. p_label p = label_name ! cls) pool)) acc)"
  using assms by (induction pool arbitrary: acc) auto

lemma accept_classes_spec:
  assumes "\<forall>cls\<in>set cs. cls < length cf \<and> cls < length label_name"
  shows "accept_classes chk st ot label_name cf pool cs acc
         = Inr (spec_accept st (\<lambda>a p. chk a p ot = None) cf
                  (concat (map (\<lambda>cls. map (Pair cls)
                                  (filter (\<lambda>p. p_label p = label_name ! cls) pool)) cs)) acc)"
  using assms
proof (induction cs arbitrary: acc)
  case Nil
  then show ?case by simp
next
  case (Cons cls cs)
  then have c: "cls < length cf" "cls < length label_name" by simp_all
  show ?case
  proof (cases "cf ! cls > st")
    case True
    then show ?thesis
      using Cons c by (simp add: accept_proposals_spec [OF c(2) True] spec_accept_append)
  next
    case False
    then show ?thesis
      using Cons c by (simp add: spec_accept_append spec_accept_closed_gate)
  qed
qed

lemma accept_frame_spec:
  assumes "num_class - 1 \<le> length label_name" "num_class - 1 \<le> length cf"
  shows "accept_frame chk st ot label_name num_class cf pool acc
         = Inr (spec_accept st (\<lambda>a p. chk a p ot = None) cf
                  (class_proposals label_name num_class pool) acc)"
  unfolding accept_frame_def class_proposals_def
  by (rule accept_classes_spec) (use assms in auto)

lemma spec_frames_append:
  "spec_frames st no lbl nc (fs @ gs) acc = spec_frames st no lbl nc gs (spec_frames st no lbl nc fs acc)"
proof (induction fs arbitrary: acc)
  case Nil
  then show ?case by simp
next
  case (Cons f fs)
  obtain pool cf where f: "f = (pool, cf)" by (cases f)
  show ?case using Cons by (simp add: f)
qed

lemma spec_frames_prefix: "prefix acc (spec_frames st no lbl nc fs acc)"
proof (induction fs arbitrary: acc)
  case Nil
  then show ?case by simp
next
  case (Cons f fs)
  obtain pool cf where f: "f = (pool, cf)" by (cases f)
  let ?a = "spec_accept st no cf (class_proposals lbl nc pool) acc"
  have "prefix acc ?a" by (rule spec_accept_prefix)
  moreover have "prefix ?a (spec_frames st no lbl nc fs ?a)" by (rule Cons)
  ultimately have "prefix acc (spec_frames st no lbl nc fs ?a)"
    by (rule prefix_order.order_trans)
  then show ?case by (simp add: f)
qed

lemma spec_frames_take_prefix:
  "prefix (spec_frames st no lbl nc (take j fs) acc) (spec_frames st no lbl nc fs acc)"
proof -
  have "spec_frames st no lbl nc fs acc
        = spec_frames st no lbl nc (drop j fs) (spec_frames st no lbl nc (take j fs) acc)"
    using spec_frames_append [of st no lbl nc "take j fs" "drop j fs" acc] by simp
  then show ?thesis by (simp add: spec_frames_prefix)
qed

lemma video_frames_spec:
  assumes "num_class - 1 \<le> length label_name"
    and "\<forall>f\<in>set frames. num_class - 1 \<le> length (snd f)"
  shows "video_frames chk st ot label_name num_class frames acc
         = Inr (spec_frames st (\<lambda>a p. chk a p ot = None) label_name num_class frames acc)"
  using assms(2)
proof (induction frames arbitrary: acc)
  case Nil
  then show ?case by simp
next
  case (Cons f frames)
  obtain pool cf where f: "f = (pool, cf)" by (cases f)
  have cf: "num_class - 1 \<le> length cf" using Cons.prems by (simp add: f)
  have rest: "\<forall>f\<in>set frames. num_class - 1 \<le> length (snd f)"
    using Cons.prems by simp
  show ?case
    using Cons.IH [OF rest] by (simp add: f accept_frame_spec [OF assms(1) cf])
qed

lemma video_loop_results:
  assumes "num_class - 1 \<le> length label_name"
    and "\<forall>v\<in>set videos. \<forall>f\<in>set (snd v). num_class - 1 \<le> length (snd f)"
    and "distinct (map fst videos)"
  shows "\<exists>rd. video_loop chk st ot label_name num_class videos rdi acci = Inr rd
             \<and> (\<forall>name. name \<notin> fst ` set videos \<longrightarrow> rd name = rdi name)
             \<and> (\<forall>i<length videos.
                  rd (fst (videos ! i))
                  = Some (spec_frames st (\<lambda>a p. chk a p ot = None) label_name num_class
                            (snd (videos ! i)) (if i = 0 then acci else [])))"
  using assms(2,3)
proof (induction videos arbitrary: rdi acci)
  case Nil
  then show ?case by simp
next
  case (Cons v videos)
  obtain name frames where v: "v = (name, frames)" by (cases v)
  have fr: "\<forall>f\<in>set frames. num_class - 1 \<le> length (snd f)"
    using Cons.prems(1) by (simp add: v)
  let ?a = "spec_frames st (\<lambda>a p. chk a p ot = None) label_name num_class frames acci"
  have a: "video_frames chk st ot label_name num_class frames acci = Inr ?a"
    by (rule video_frames_spec [OF assms(1) fr])
  have rest: "\<forall>v\<in>set videos. \<forall>f\<in>set (snd v). num_class - 1 \<le> length (snd f)"
    "distinct (map fst videos)" "name \<notin> fst ` set videos"
    using Cons.prems by (simp_all add: v)
  from Cons.IH [OF rest(1,2), where rdi = "rdi(name \<mapsto> ?a)" and acci = "[]"] obtain rd where
    rd: "video_loop chk st ot label_name num_class videos (rdi(name \<mapsto> ?a)) [] = Inr rd"
    and keep: "\<And>n. n \<notin> fst ` set videos \<Longrightarrow> rd n = (rdi(name \<mapsto> ?a)) n"
    and res: "\<And>i. i < length videos \<Longrightarrow>
                rd (fst (videos ! i))
                  = Some (spec_frames st (\<lambda>a p. chk a p ot = None) label_name num_class
                            (snd (videos ! i)) (if i = 0 then [] else []))"
    by blast
  have step: "video_loop chk st ot label_name num_class (v # videos) rdi acci = Inr rd"
    using a rd by (simp add: v)
  have k: "rd n = rdi n" if "n \<notin> fst ` set (v # videos)" for n
    using keep [of n] that by (simp add: v)
  have r: "rd (fst ((v # videos) ! i))
                  = Some (spec_frames st (\<lambda>a p. chk a p ot = None) label_name num_class
                            (snd ((v # videos) ! i)) (if i = 0 then acci else []))"
    if "i < length (v # videos)" for i
  proof (cases i)
    case 0
    then show ?thesis using keep [OF rest(3)] by (simp add: v)
  next
    case (Suc j)
    then show ?thesis using res [of j] that by simp
  qed
  show ?case using step k r by blast
qed

section \<open>Properties of the matcher\<close>

text \<open>
  C1. The lock table of \<^verbatim>\<open>compute_average_precision_detection\<close>, in every state of one pass
  (the state after the first \<open>k\<close> predictions in sorted order) and for every threshold
  \<open>t\<close>: a lock is \<open>-1\<close> or the index of one prediction, a true positive at \<open>t\<close>; every
  true positive at \<open>t\<close> holds the lock of exactly one ground-truth instance, so no instance
  is claimed by two predictions; a lock that is taken keeps its value in every later state
  of the pass; and row \<open>t\<close> of the lock table is the row the pass computes when
  \<open>tiou_thresholds ! t\<close> is its only threshold, whatever the other thresholds are.
\<close>

theorem lock_table_invariant:
  assumes "t < length tiou_thresholds"
  shows
    "(\<forall>g<length ground_truth.
        lock_gt (match_prefix iou ground_truth prediction tiou_thresholds k) ! t ! g = - 1
        \<or> (\<exists>i<length prediction.
              lock_gt (match_prefix iou ground_truth prediction tiou_thresholds k) ! t ! g = int i
              \<and> tp (match_prefix iou ground_truth prediction tiou_thresholds k) ! t ! i = 1))
     \<and> (\<forall>i<length prediction.
          tp (match_prefix iou ground_truth prediction tiou_thresholds k) ! t ! i = 1 \<longrightarrow>
          (\<exists>!g. g < length ground_truth
              \<and> lock_gt (match_prefix iou ground_truth prediction tiou_thresholds k) ! t ! g = int i))
     \<and> (\<forall>g d.
          0 \<le> lock_gt (match_prefix iou ground_truth prediction tiou_thresholds k) ! t ! g \<longrightarrow>
          lock_gt (match_prefix iou ground_truth prediction tiou_thresholds (k + d)) ! t ! g
          = lock_gt (match_prefix iou ground_truth prediction tiou_thresholds k) ! t ! g)
     \<and> lock_gt (match_prefix iou ground_truth prediction tiou_thresholds k) ! t
       = lock_gt (match_prefix iou ground_truth prediction [tiou_thresholds ! t] k) ! 0"
proof -
  let ?thr = "tiou_thresholds ! t"
  let ?R = "row_prefix iou ground_truth prediction ?thr"
  let ?G = "length ground_truth" and ?n = "length prediction"
  have r: "row t (match_prefix iou ground_truth prediction tiou_thresholds j) = ?R j" for j
    by (rule row_match_prefix [OF assms])
  have lock: "lock_gt (match_prefix iou ground_truth prediction tiou_thresholds j) ! t = r_lock (?R j)"
    and tp: "tp (match_prefix iou ground_truth prediction tiou_thresholds j) ! t = r_tp (?R j)" for j
    using r [of j, symmetric] by simp_all
  have r1: "row 0 (match_prefix iou ground_truth prediction [?thr] k) = ?R k"
    using row_match_prefix [of 0 "[?thr]" iou ground_truth prediction k] by simp
  have lock1: "lock_gt (match_prefix iou ground_truth prediction [?thr] k) ! 0 = r_lock (?R k)"
    using r1 [symmetric] by simp
  have inv: "row_inv ?G ?n (min k ?n) (?R k)"
    by (rule row_prefix_inv_min)
  have a: "r_lock (?R k) ! g = - 1 \<or> (\<exists>i<?n. r_lock (?R k) ! g = int i \<and> r_tp (?R k) ! i = 1)"
    if "g < ?G" for g
    using row_inv_lock [OF inv that] by auto
  have b: "\<exists>!g. g < ?G \<and> r_lock (?R k) ! g = int i" if "i < ?n" "r_tp (?R k) ! i = 1" for i
  proof -
    have "i < min k ?n"
    proof (rule ccontr)
      assume "\<not> i < min k ?n"
      then have "min k ?n \<le> i" by (auto simp: min_def not_less)
      from row_inv_todo [OF inv this that(1)] have "r_tp (?R k) ! i = 0" by simp
      with that(2) show False by simp
    qed
    from row_inv_claim [OF inv this that(2)] obtain g where g: "g < ?G" "r_lock (?R k) ! g = int i"
      by blast
    show ?thesis
    proof (rule ex1I [of _ g])
      show "g < ?G \<and> r_lock (?R k) ! g = int i" using g by simp
    next
      fix h assume "h < ?G \<and> r_lock (?R k) ! h = int i"
      then show "h = g" using row_inv_inj [OF inv g(1), of h] g(2) by simp
    qed
  qed
  have c: "r_lock (?R (k + d)) ! g = r_lock (?R k) ! g" if "0 \<le> r_lock (?R k) ! g" for g d
    by (rule row_prefix_lock_mono [OF that])
  show ?thesis
    unfolding lock tp lock1 using a b c by blast
qed

theorem lock_table_invariant_witness:
  "(0::nat) < length [1 / 2, 19 / 20 :: real] \<and> (0::nat) < length ex_pred
   \<and> tp (match_prefix segment_iou ex_gt ex_pred [1 / 2, 19 / 20] 1) ! 0 ! 0 = 1
   \<and> 0 \<le> lock_gt (match_prefix segment_iou ex_gt ex_pred [1 / 2, 19 / 20] 1) ! 0 ! 0
   \<and> lock_gt (match_prefix segment_iou ex_gt ex_pred [1 / 2, 19 / 20] (1 + 3)) ! 0 ! 0
     = lock_gt (match_prefix segment_iou ex_gt ex_pred [1 / 2, 19 / 20] 1) ! 0 ! 0
   \<and> lock_gt (match_prefix segment_iou ex_gt ex_pred [1 / 2, 19 / 20] 1) ! 0
     = lock_gt (match_prefix segment_iou ex_gt ex_pred [[1 / 2, 19 / 20] ! 0] 1) ! 0"
proof -
  have t: "(0::nat) < length [1 / 2, 19 / 20 :: real]" by simp
  have i: "(0::nat) < length ex_pred" by (simp add: ex_pred_def)
  have e1: "tp (match_prefix segment_iou ex_gt ex_pred [1 / 2, 19 / 20] 1) ! 0 ! 0 = 1"
    by code_simp
  have e2: "0 \<le> lock_gt (match_prefix segment_iou ex_gt ex_pred [1 / 2, 19 / 20] 1) ! 0 ! 0"
    by code_simp
  note inv = lock_table_invariant [OF t, where iou = segment_iou and ground_truth = ex_gt
      and prediction = ex_pred and k = 1]
  have c3: "lock_gt (match_prefix segment_iou ex_gt ex_pred [1 / 2, 19 / 20] (1 + 3)) ! 0 ! 0
     = lock_gt (match_prefix segment_iou ex_gt ex_pred [1 / 2, 19 / 20] 1) ! 0 ! 0"
    using inv [THEN conjunct2, THEN conjunct2, THEN conjunct1, rule_format, OF e2] .
  note c4 = inv [THEN conjunct2, THEN conjunct2, THEN conjunct2]
  show ?thesis
    using t i e1 e2 c3 c4 by blast
qed



text \<open>
  C4. For every threshold \<open>t\<close> and every position \<open>i\<close> of the sorted predictions, the
  cumulative counts of true and false positives at \<open>i\<close> add up to \<open>i + 1\<close>, and the
  prediction is marked either a true positive or a false positive, never both and never
  neither.
\<close>

theorem tp_fp_partition:
  assumes "t < length tiou_thresholds" "i < length prediction"
  shows
    "(let s = match_predictions iou ground_truth prediction tiou_thresholds in
        cumsum (tp s ! t) ! i + cumsum (fp s ! t) ! i = real (i + 1)
        \<and> ((tp s ! t ! i = 1 \<and> fp s ! t ! i = 0) \<or> (tp s ! t ! i = 0 \<and> fp s ! t ! i = 1)))"
proof -
  let ?s = "match_predictions iou ground_truth prediction tiou_thresholds"
  let ?r = "row_prefix iou ground_truth prediction (tiou_thresholds ! t) (length prediction)"
  have r: "row t ?s = ?r"
    using row_match_prefix [OF assms(1)] by (simp add: match_predictions_prefix)
  have tp: "tp ?s ! t = r_tp ?r" and fp: "fp ?s ! t = r_fp ?r"
    using r [symmetric] by simp_all
  have inv: "row_inv (length ground_truth) (length prediction) (length prediction) ?r"
    by (simp add: row_prefix_inv)
  note len = row_inv_length [OF inv]
  have one: "(r_tp ?r ! j = 1 \<and> r_fp ?r ! j = 0) \<or> (r_tp ?r ! j = 0 \<and> r_fp ?r ! j = 1)"
    if "j < length prediction" for j
    using row_inv_done [OF inv that that] by blast
  have "sum_list (take (Suc i) (r_tp ?r)) + sum_list (take (Suc i) (r_fp ?r)) = real (Suc i)"
  proof (rule sum_take_complementary)
    fix j assume "j < Suc i"
    then have "j < length prediction" using assms(2) by simp
    from one [OF this] show "r_tp ?r ! j + r_fp ?r ! j = 1" by auto
  qed (use len assms(2) in simp_all)
  then have "cumsum (r_tp ?r) ! i + cumsum (r_fp ?r) ! i = real (i + 1)"
    using len assms(2) by (simp add: cumsum_nth)
  with one [OF assms(2)] show ?thesis
    unfolding Let_def tp fp by simp
qed

theorem tp_fp_partition_witness:
  "(0::nat) < length [1 / 2, 19 / 20 :: real] \<and> (1::nat) < length ex_pred
   \<and> cumsum (tp (match_predictions segment_iou ex_gt ex_pred [1 / 2, 19 / 20]) ! 0) ! 1
     + cumsum (fp (match_predictions segment_iou ex_gt ex_pred [1 / 2, 19 / 20]) ! 0) ! 1 = 2"
proof -
  have h: "(0::nat) < length [1 / 2, 19 / 20 :: real]" "(1::nat) < length ex_pred"
    by (simp_all add: ex_pred_def)
  from tp_fp_partition [OF h, of segment_iou ex_gt] h show ?thesis
    by (simp add: Let_def)
qed

section \<open>Latency\<close>

text \<open>
  C3, as the claim states it, fails: \<^verbatim>\<open>compute_average_precision_detection\<close> returns the
  sum of the latencies of the true positives, not their mean. On the concrete class below
  the true positives at threshold \<open>1/2\<close> have the latencies \<open>1\<close> and \<open>-30\<close>; the function
  returns \<open>-29\<close>, the mean is \<open>-29/2\<close>.
\<close>

theorem latency_not_mean_counterexample:
  "tp (match_predictions segment_iou ex_gt ex_pred [1 / 2, 19 / 20]) ! 0 = [1, 0, 0, 1]
   \<and> timediff (match_predictions segment_iou ex_gt ex_pred [1 / 2, 19 / 20]) ! 0 = [1, 0, 0, - 30]
   \<and> fst (snd (compute_average_precision_detection (\<lambda>prec rec. 0) segment_iou ex_gt ex_pred
                  [1 / 2, 19 / 20])) ! 0 = - 29
   \<and> fst (snd (compute_average_precision_detection (\<lambda>prec rec. 0) segment_iou ex_gt ex_pred
                  [1 / 2, 19 / 20])) ! 0 \<noteq> (1 + (- 30)) / 2"
  by code_simp

text \<open>
  C3, amended. For a class with ground truth and predictions and a threshold \<open>t\<close>, the
  function returns the number of true positives and the sum of their latencies (\<open>0\<close>
  when there is none). The division is the wrapper's: for each threshold it divides the sum
  of these sums over all classes by the number of true positives of all classes, and
  reports \<open>0\<close> when that number is \<open>0\<close>.
\<close>

theorem latency_sum_pooled_mean:
  assumes "t < length tiou_thresholds" "class_pred \<noteq> []" "class_gt \<noteq> []"
    and "map snd activity_index = [0..<length activity_index]"
  shows
    "(let s = match_predictions iou class_gt class_pred tiou_thresholds;
          true_positives = filter (\<lambda>i. tp s ! t ! i = 1) [0..<length class_pred]
      in snd (snd (compute_average_precision_detection ipr iou class_gt class_pred
                     tiou_thresholds)) ! t = real (length true_positives)
         \<and> fst (snd (compute_average_precision_detection ipr iou class_gt class_pred
                       tiou_thresholds)) ! t = (\<Sum>i\<leftarrow>true_positives. timediff s ! t ! i))
     \<and> (\<exists>ap final_tdiff.
          wrapper_compute_average_precision ipr iou tiou_thresholds activity_index ground_truth
            prediction = Inr (ap, final_tdiff)
          \<and> final_tdiff ! t =
              (if (\<Sum>c\<leftarrow>[0..<length activity_index].
                     snd (snd (per_class ipr iou tiou_thresholds ground_truth prediction c)) ! t) > 0
               then (\<Sum>c\<leftarrow>[0..<length activity_index].
                       fst (snd (per_class ipr iou tiou_thresholds ground_truth prediction c)) ! t)
                    / (\<Sum>c\<leftarrow>[0..<length activity_index].
                         snd (snd (per_class ipr iou tiou_thresholds ground_truth prediction c)) ! t)
               else 0))"
proof -
  note a = compute_sum_of_latencies [OF assms(2,3,1), of ipr iou]
  from wrapper_result [OF assms(4), of ipr iou tiou_thresholds ground_truth prediction]
  obtain ap final_tdiff where
    w: "wrapper_compute_average_precision ipr iou tiou_thresholds activity_index ground_truth
            prediction = Inr (ap, final_tdiff)"
    and f: "\<forall>t<length tiou_thresholds. final_tdiff ! t =
              (if (\<Sum>c\<leftarrow>[0..<length activity_index].
                     snd (snd (per_class ipr iou tiou_thresholds ground_truth prediction c)) ! t) > 0
               then (\<Sum>c\<leftarrow>[0..<length activity_index].
                       fst (snd (per_class ipr iou tiou_thresholds ground_truth prediction c)) ! t)
                    / (\<Sum>c\<leftarrow>[0..<length activity_index].
                         snd (snd (per_class ipr iou tiou_thresholds ground_truth prediction c)) ! t)
               else 0)"
    by blast
  from f assms(1) have ft: "final_tdiff ! t =
              (if (\<Sum>c\<leftarrow>[0..<length activity_index].
                     snd (snd (per_class ipr iou tiou_thresholds ground_truth prediction c)) ! t) > 0
               then (\<Sum>c\<leftarrow>[0..<length activity_index].
                       fst (snd (per_class ipr iou tiou_thresholds ground_truth prediction c)) ! t)
                    / (\<Sum>c\<leftarrow>[0..<length activity_index].
                         snd (snd (per_class ipr iou tiou_thresholds ground_truth prediction c)) ! t)
               else 0)"
    by blast
  show ?thesis
    unfolding Let_def using a w ft by blast
qed

theorem latency_sum_pooled_mean_witness:
  "(0::nat) < length [1 / 2, 19 / 20 :: real] \<and> ex_pred \<noteq> [] \<and> ex_gt \<noteq> []
   \<and> map snd [(''run'', 0::nat)] = [0..<length [(''run'', 0::nat)]]
   \<and> snd (snd (compute_average_precision_detection (\<lambda>prec rec. 0) segment_iou ex_gt ex_pred
                  [1 / 2, 19 / 20])) ! 0
     = real (length (filter
          (\<lambda>i. tp (match_predictions segment_iou ex_gt ex_pred [1 / 2, 19 / 20]) ! 0 ! i = 1)
          [0..<length ex_pred]))
   \<and> fst (snd (compute_average_precision_detection (\<lambda>prec rec. 0) segment_iou ex_gt ex_pred
                  [1 / 2, 19 / 20])) ! 0
     = (\<Sum>i\<leftarrow>filter
          (\<lambda>i. tp (match_predictions segment_iou ex_gt ex_pred [1 / 2, 19 / 20]) ! 0 ! i = 1)
          [0..<length ex_pred].
          timediff (match_predictions segment_iou ex_gt ex_pred [1 / 2, 19 / 20]) ! 0 ! i)"
proof -
  have h: "(0::nat) < length [1 / 2, 19 / 20 :: real]" "ex_pred \<noteq> []" "ex_gt \<noteq> []"
    "map snd [(''run'', 0::nat)] = [0..<length [(''run'', 0::nat)]]"
    by (simp_all add: ex_pred_def ex_gt_def)
  note w = latency_sum_pooled_mean [OF h, where ipr = "\<lambda>prec rec. 0" and iou = segment_iou,
      unfolded Let_def, THEN conjunct1]
  show ?thesis using h w by blast
qed

section \<open>Empty classes and absent videos\<close>

text \<open>
  C5. A class without ground truth or without predictions gets the three zero vectors,
  one entry per threshold: the function returns them before any array is indexed, so it
  raises nothing.
\<close>

theorem empty_class_zero_vectors:
  "compute_average_precision_detection interpolated_prec_rec iou [] prediction tiou_thresholds
     = (replicate (length tiou_thresholds) 0, replicate (length tiou_thresholds) 0,
        replicate (length tiou_thresholds) 0)
   \<and> compute_average_precision_detection interpolated_prec_rec iou ground_truth []
       tiou_thresholds
     = (replicate (length tiou_thresholds) 0, replicate (length tiou_thresholds) 0,
        replicate (length tiou_thresholds) 0)"
  by (simp add: compute_average_precision_detection_def)

text \<open>
  C6. A prediction whose video has no ground-truth row: the lookup of the video's group
  raises \<^verbatim>\<open>KeyError\<close>, the handler takes it, and at every threshold the prediction is a false
  positive and not a true positive in the final arrays.
\<close>

theorem absent_video_false_positive:
  assumes "t < length tiou_thresholds" "i < length prediction"
    and "pd_video_id (sort_predictions prediction ! i) \<notin> gt_video_id ` set ground_truth"
  shows
    "get_group ground_truth (pd_video_id (sort_predictions prediction ! i)) = Inl KeyError
     \<and> fp (match_predictions iou ground_truth prediction tiou_thresholds) ! t ! i = 1
     \<and> tp (match_predictions iou ground_truth prediction tiou_thresholds) ! t ! i = 0"
proof -
  let ?p = "sort_predictions prediction ! i"
  let ?thr = "tiou_thresholds ! t"
  let ?R = "row_prefix iou ground_truth prediction ?thr"
  have gg: "get_group ground_truth (pd_video_id ?p) = Inl KeyError"
    using assms(3) by (simp add: get_group_Inl)
  have inv: "row_inv (length ground_truth) (length prediction) i (?R i)"
    using assms(2) by (simp add: row_prefix_inv)
  note len = row_inv_length [OF inv]
  note i0 = row_inv_todo [OF inv le_refl assms(2)]
  have "?R (Suc i) = (?R i)\<lparr>r_fp := (r_fp (?R i))[i := 1]\<rparr>"
    using gg by (simp add: row_prefix_Suc [OF assms(2)] pred_row_def)
  then have now: "r_fp (?R (Suc i)) ! i = 1" "r_tp (?R (Suc i)) ! i = 0"
    using len assms(2) i0 by simp_all
  obtain d where d: "length prediction = Suc i + d"
    using assms(2) less_imp_Suc_add by auto
  have "r_fp (?R (length prediction)) ! i = 1 \<and> r_tp (?R (length prediction)) ! i = 0"
    using row_prefix_frame [of i "Suc i" iou ground_truth prediction ?thr d] now
    unfolding d by simp
  moreover have r: "row t (match_predictions iou ground_truth prediction tiou_thresholds)
      = ?R (length prediction)"
    using row_match_prefix [OF assms(1)] by (simp add: match_predictions_prefix)
  have "fp (match_predictions iou ground_truth prediction tiou_thresholds) ! t
               = r_fp (?R (length prediction))"
      "tp (match_predictions iou ground_truth prediction tiou_thresholds) ! t
               = r_tp (?R (length prediction))"
    using r [symmetric] by simp_all
  ultimately show ?thesis using gg by simp
qed

theorem absent_video_false_positive_witness:
  "(1::nat) < length [1 / 2, 19 / 20 :: real] \<and> (2::nat) < length ex_pred
   \<and> pd_video_id (sort_predictions ex_pred ! 2) \<notin> gt_video_id ` set ex_gt
   \<and> fp (match_predictions segment_iou ex_gt ex_pred [1 / 2, 19 / 20]) ! 1 ! 2 = 1
   \<and> tp (match_predictions segment_iou ex_gt ex_pred [1 / 2, 19 / 20]) ! 1 ! 2 = 0"
proof -
  have h: "(1::nat) < length [1 / 2, 19 / 20 :: real]" "(2::nat) < length ex_pred"
    by (simp_all add: ex_pred_def)
  have v: "pd_video_id (sort_predictions ex_pred ! 2) = ''v2''"
    by code_simp
  have a: "pd_video_id (sort_predictions ex_pred ! 2) \<notin> gt_video_id ` set ex_gt"
    unfolding v by (simp add: ex_gt_def)
  from absent_video_false_positive [OF h a, of segment_iou] h a show ?thesis
    by simp
qed

section \<open>The decoder\<close>

text \<open>
  C7. For a frame whose arrays have a row per anchor, a regression pair in each row and a
  name for each class before the background, the decoder raises nothing and emits, anchor
  by anchor, one candidate for each class before the background whose score is greater than
  the threshold (none when no score is): its end is \<open>idx + A * reg[0]\<close>, its start the end
  minus \<open>A * exp(reg[1])\<close>, both and the generation time \<open>idx\<close> scaled by
  \<open>frame_to_time / 100\<close>, its score the classifier's score of the class.
\<close>

theorem decoder_candidates:
  assumes "length cls_anc = length anchors" "length reg_anc = length anchors"
    and "\<forall>a<length anchors. 2 \<le> length (reg_anc ! a)
                            \<and> length (cls_anc ! a) - 1 \<le> length label_name"
  shows
    "decode_frame threshold label_name frame_to_time anchors idx cls_anc reg_anc
     = Inr (concat (map (\<lambda>anc_idx.
         map (\<lambda>label.
            \<lparr>p_segment =
               ((real idx + real_of_int (anchors ! anc_idx) * (reg_anc ! anc_idx ! 0)
                 - real_of_int (anchors ! anc_idx) * exp (reg_anc ! anc_idx ! 1))
                  * frame_to_time / 100,
                (real idx + real_of_int (anchors ! anc_idx) * (reg_anc ! anc_idx ! 0))
                  * frame_to_time / 100),
             p_score = cls_anc ! anc_idx ! label,
             p_label = label_name ! label,
             p_gentime = real idx * frame_to_time / 100\<rparr>)
           (filter (\<lambda>label. cls_anc ! anc_idx ! label > threshold)
              [0..<length (cls_anc ! anc_idx) - 1]))
         [0..<length anchors]))"
proof -
  have "\<forall>a\<in>set [0..<length anchors]. a < length cls_anc \<and> a < length reg_anc
             \<and> 2 \<le> length (reg_anc ! a) \<and> length (cls_anc ! a) - 1 \<le> length label_name"
    using assms by simp
  from decode_anchors_ok [OF this, of threshold frame_to_time anchors idx "[]"]
  show ?thesis
    by (simp add: decode_frame_def anchor_candidates_def [abs_def])
qed

theorem decoder_candidates_witness:
  "length ex_cls_anc = length [4, 8 :: int] \<and> length ex_reg_anc = length [4, 8 :: int]
   \<and> decode_frame (1 / 2) [''run'', ''jump'', ''swim''] 50 [4, 8] 6 ex_cls_anc ex_reg_anc
     = Inr [\<lparr>p_segment = (2, 4), p_score = 9 / 10, p_label = ''run'', p_gentime = 3\<rparr>,
            \<lparr>p_segment = (2, 4), p_score = 3 / 5, p_label = ''swim'', p_gentime = 3\<rparr>]"
proof -
  have h: "length ex_cls_anc = length [4, 8 :: int]" "length ex_reg_anc = length [4, 8 :: int]"
    by (simp_all add: ex_cls_anc_def ex_reg_anc_def)
  have w: "\<forall>a<length [4, 8 :: int]. 2 \<le> length (ex_reg_anc ! a)
              \<and> length (ex_cls_anc ! a) - 1 \<le> length [''run'', ''jump'', ''swim'']"
    by (simp add: ex_cls_anc_def ex_reg_anc_def less_Suc_eq)
  note d = decoder_candidates [OF h w, of "1 / 2" 50 6]
  have "decode_frame (1 / 2) [''run'', ''jump'', ''swim''] 50 [4, 8] 6 ex_cls_anc ex_reg_anc
     = Inr [\<lparr>p_segment = (2, 4), p_score = 9 / 10, p_label = ''run'', p_gentime = 3\<rparr>,
            \<lparr>p_segment = (2, 4), p_score = 3 / 5, p_label = ''swim'', p_gentime = 3\<rparr>]"
    unfolding d by (simp add: ex_cls_anc_def ex_reg_anc_def)
  with h show ?thesis by simp
qed

section \<open>The order of the predictions\<close>

text \<open>
  C8, as the claim states it, fails: the code asks numpy for the indices in ascending
  order of score, with the default kind, and reads them backwards. On two predictions with
  the same score \<open>[0, 1]\<close> is an ascending answer, the one that leaves equal scores
  where they are and the one the \<open>argsort\<close> of this theory gives; with it the two come out
  in the opposite of their input order.
\<close>

theorem sort_not_stable_counterexample:
  "pd_score (ex_tie ! 0) = pd_score (ex_tie ! 1)
   \<and> mset [0, 1] = mset [0..<length ex_tie]
   \<and> sorted (map (\<lambda>i. map pd_score ex_tie ! i) [0, 1])
   \<and> sort_predictions_with (\<lambda>xs. [0, 1]) ex_tie = [ex_tie ! 1, ex_tie ! 0]
   \<and> sort_predictions_with (\<lambda>xs. [0, 1]) ex_tie \<noteq> ex_tie
   \<and> argsort (map pd_score ex_tie) = [0, 1]
   \<and> sort_predictions ex_tie = [ex_tie ! 1, ex_tie ! 0]
   \<and> sort_predictions ex_tie \<noteq> ex_tie"
  by code_simp

text \<open>
  C8, amended. Whatever ascending order of the indices \<^verbatim>\<open>argsort\<close> answers, the sorted
  predictions are a permutation of the input with scores in descending order; so are
  those of the model, which is the instance with the \<open>argsort\<close> of this theory. Nothing is
  said of the order among predictions with equal scores: it is the one \<^verbatim>\<open>argsort\<close> gives
  them, read backwards, and with the answer \<open>[1, 0]\<close> on the two predictions above they
  keep their input order.
\<close>

theorem sort_predictions_descending:
  assumes "mset (asort (map pd_score prediction)) = mset [0..<length prediction]"
    and "sorted (map (\<lambda>i. map pd_score prediction ! i) (asort (map pd_score prediction)))"
  shows
    "mset (sort_predictions_with asort prediction) = mset prediction
     \<and> sorted (rev (map pd_score (sort_predictions_with asort prediction)))
     \<and> sort_predictions prediction = sort_predictions_with argsort prediction
     \<and> mset (sort_predictions prediction) = mset prediction
     \<and> sorted (rev (map pd_score (sort_predictions prediction)))"
proof -
  note a = sort_predictions_with_mset [of asort prediction, OF assms(1)]
  note b = sort_predictions_with_sorted [of asort prediction, OF assms]
  note c = sort_predictions_with_argsort [of prediction]
  have m: "mset (argsort (map pd_score prediction)) = mset [0..<length prediction]"
    and s: "sorted (map (\<lambda>i. map pd_score prediction ! i) (argsort (map pd_score prediction)))"
    using argsort_ascending [of "map pd_score prediction"] by simp_all
  have d: "mset (sort_predictions prediction) = mset prediction"
    unfolding c by (rule sort_predictions_with_mset [of argsort prediction, OF m])
  have e: "sorted (rev (map pd_score (sort_predictions prediction)))"
    unfolding c by (rule sort_predictions_with_sorted [of argsort prediction, OF m s])
  show ?thesis using a b c d e by blast
qed

theorem sort_predictions_descending_witness:
  "mset ((\<lambda>xs. [1, 0]) (map pd_score ex_tie)) = mset [0..<length ex_tie]
   \<and> sorted (map (\<lambda>i. map pd_score ex_tie ! i) ((\<lambda>xs. [1, 0]) (map pd_score ex_tie)))
   \<and> mset (sort_predictions_with (\<lambda>xs. [1, 0]) ex_tie) = mset ex_tie
   \<and> sorted (rev (map pd_score (sort_predictions_with (\<lambda>xs. [1, 0]) ex_tie)))
   \<and> sort_predictions_with (\<lambda>xs. [1, 0]) ex_tie = ex_tie"
proof -
  have h: "mset ((\<lambda>xs. [1, 0]) (map pd_score ex_tie)) = mset [0..<length ex_tie]"
    "sorted (map (\<lambda>i. map pd_score ex_tie ! i) ((\<lambda>xs. [1, 0]) (map pd_score ex_tie)))"
    by (simp_all add: ex_tie_def)
  have k: "sort_predictions_with (\<lambda>xs. [1, 0]) ex_tie = ex_tie"
    by (simp add: sort_predictions_with_def ex_tie_def)
  note w = sort_predictions_descending [of "\<lambda>xs. [1, 0]" ex_tie, OF h]
  show ?thesis
    using h k w [THEN conjunct1] w [THEN conjunct2, THEN conjunct1] by blast
qed

section \<open>The online refiner\<close>

text \<open>
  C9. With a name and, in every frame, a score for every class before the background, the
  loops raise nothing and: the acceptance loops of a frame compute the refinement the
  specification words, in which a proposal of a class is appended exactly when the score
  returned for the class is greater than \<open>sup_threshold\<close> and the overlap check against
  the accepted set as it is then finds nothing; with the check of the specification that
  is when no accepted proposal has a tIoU with it greater than the overlap threshold. The
  loop over the frames of a video applies this refinement frame after frame; the accepted
  set after the first \<open>j\<close> frames extends the one the video started with and is a prefix of
  the one after all frames. Over the videos of a data set (distinct names), the result of
  every video is the refinement of its own frames started from the empty set.
\<close>

theorem online_acceptance:
  assumes "num_class - 1 \<le> length label_name" "num_class - 1 \<le> length suppress_conf"
    and "\<forall>f\<in>set frames. num_class - 1 \<le> length (snd f)"
    and "\<forall>v\<in>set videos. \<forall>f\<in>set (snd v). num_class - 1 \<le> length (snd f)"
    and "distinct (map fst videos)"
  shows
    "accept_frame check_overlap sup_threshold overlapThresh label_name num_class suppress_conf
       proposal_anc_dict accepted
     = Inr (spec_accept sup_threshold (\<lambda>a p. check_overlap a p overlapThresh = None)
              suppress_conf (class_proposals label_name num_class proposal_anc_dict) accepted)
     \<and> spec_accept sup_threshold (\<lambda>a p. check_overlap a p overlapThresh = None) suppress_conf
         [(cls, p)] accepted
       = (if suppress_conf ! cls > sup_threshold \<and> check_overlap accepted p overlapThresh = None
          then accepted @ [p] else accepted)
     \<and> ((check_overlap_proposal accepted p overlapThresh = None)
        = list_all (\<lambda>q. \<not> temporal_iou (p_segment p) (p_segment q) > overlapThresh) accepted)
     \<and> video_frames check_overlap sup_threshold overlapThresh label_name num_class frames
         accepted
       = Inr (spec_frames sup_threshold (\<lambda>a p. check_overlap a p overlapThresh = None)
                label_name num_class frames accepted)
     \<and> (\<forall>j. video_frames check_overlap sup_threshold overlapThresh label_name num_class
               (take j frames) accepted
             = Inr (spec_frames sup_threshold (\<lambda>a p. check_overlap a p overlapThresh = None)
                      label_name num_class (take j frames) accepted)
             \<and> prefix accepted
                 (spec_frames sup_threshold (\<lambda>a p. check_overlap a p overlapThresh = None)
                    label_name num_class (take j frames) accepted)
             \<and> prefix
                 (spec_frames sup_threshold (\<lambda>a p. check_overlap a p overlapThresh = None)
                    label_name num_class (take j frames) accepted)
                 (spec_frames sup_threshold (\<lambda>a p. check_overlap a p overlapThresh = None)
                    label_name num_class frames accepted))
     \<and> (\<exists>result_dict.
          online_refiner check_overlap sup_threshold overlapThresh label_name num_class videos
            = Inr result_dict
          \<and> (\<forall>i<length videos.
                result_dict (fst (videos ! i))
                = Some (spec_frames sup_threshold
                          (\<lambda>a p. check_overlap a p overlapThresh = None) label_name num_class
                          (snd (videos ! i)) []))
          \<and> (\<forall>name. name \<notin> fst ` set videos \<longrightarrow> result_dict name = None))"
proof -
  let ?no = "\<lambda>a p. check_overlap a p overlapThresh = None"
  have c1: "accept_frame check_overlap sup_threshold overlapThresh label_name num_class
       suppress_conf proposal_anc_dict accepted
     = Inr (spec_accept sup_threshold ?no suppress_conf
              (class_proposals label_name num_class proposal_anc_dict) accepted)"
    by (rule accept_frame_spec [OF assms(1,2)])
  have c2: "spec_accept sup_threshold ?no suppress_conf [(cls, p)] accepted
       = (if suppress_conf ! cls > sup_threshold \<and> check_overlap accepted p overlapThresh = None
          then accepted @ [p] else accepted)"
    by simp
  note c3 = check_overlap_proposal_None [of accepted p overlapThresh]
  have c4: "video_frames check_overlap sup_threshold overlapThresh label_name num_class frames
         accepted
       = Inr (spec_frames sup_threshold ?no label_name num_class frames accepted)"
    by (rule video_frames_spec [OF assms(1,3)])
  have c5: "video_frames check_overlap sup_threshold overlapThresh label_name num_class
               (take j frames) accepted
             = Inr (spec_frames sup_threshold ?no label_name num_class (take j frames) accepted)
             \<and> prefix accepted
                 (spec_frames sup_threshold ?no label_name num_class (take j frames) accepted)
             \<and> prefix
                 (spec_frames sup_threshold ?no label_name num_class (take j frames) accepted)
                 (spec_frames sup_threshold ?no label_name num_class frames accepted)" for j
  proof -
    have "\<forall>f\<in>set (take j frames). num_class - 1 \<le> length (snd f)"
      using assms(3) by (meson in_set_takeD)
    from video_frames_spec [OF assms(1) this, of check_overlap sup_threshold overlapThresh accepted]
    show ?thesis
      using spec_frames_prefix [of accepted sup_threshold ?no label_name num_class "take j frames"]
        spec_frames_take_prefix [of sup_threshold ?no label_name num_class j frames accepted]
      by simp
  qed
  from video_loop_results [OF assms(1,4,5), where chk = check_overlap and st = sup_threshold
      and ot = overlapThresh and rdi = Map.empty and acci = "[]"]
  have c6: "\<exists>result_dict.
          online_refiner check_overlap sup_threshold overlapThresh label_name num_class videos
            = Inr result_dict
          \<and> (\<forall>i<length videos.
                result_dict (fst (videos ! i))
                = Some (spec_frames sup_threshold ?no label_name num_class (snd (videos ! i)) []))
          \<and> (\<forall>name. name \<notin> fst ` set videos \<longrightarrow> result_dict name = None)"
    unfolding online_refiner_def by auto
  show ?thesis
    using c1 c2 c3 c4 c5 c6 by blast
qed

theorem online_acceptance_witness:
  "(3::nat) - 1 \<le> length [''run'', ''jump''] \<and> (3::nat) - 1 \<le> length [4 / 5, 0 :: real]
   \<and> distinct (map fst ex_videos)
   \<and> accept_frame check_overlap_proposal (1 / 2) (3 / 10) [''run'', ''jump''] 3 [4 / 5, 0]
        [ex_run2, ex_run3] [ex_run1]
     = Inr [ex_run1, ex_run3]
   \<and> video_frames check_overlap_proposal (1 / 2) (3 / 10) [''run'', ''jump''] 3
        (snd (ex_videos ! 0)) []
     = Inr [ex_run1, ex_run3]
   \<and> video_frames check_overlap_proposal (1 / 2) (3 / 10) [''run'', ''jump''] 3
        (take 1 (snd (ex_videos ! 0))) []
     = Inr [ex_run1]
   \<and> prefix [ex_run1] [ex_run1, ex_run3]
   \<and> (\<exists>result_dict.
        online_refiner check_overlap_proposal (1 / 2) (3 / 10) [''run'', ''jump''] 3 ex_videos
          = Inr result_dict
        \<and> result_dict (fst (ex_videos ! 0)) = Some [ex_run1, ex_run3]
        \<and> result_dict (fst (ex_videos ! 1)) = Some [ex_run2])"
proof -
  let ?no = "\<lambda>a p. check_overlap_proposal a p (3 / 10) = None"
  have h: "(3::nat) - 1 \<le> length [''run'', ''jump'']" "(3::nat) - 1 \<le> length [4 / 5, 0 :: real]"
    "\<forall>f\<in>set (snd (ex_videos ! 0)). (3::nat) - 1 \<le> length (snd f)"
    "\<forall>v\<in>set ex_videos. \<forall>f\<in>set (snd v). (3::nat) - 1 \<le> length (snd f)"
    "distinct (map fst ex_videos)"
    by (simp_all add: ex_videos_def)
  have i: "0 < length ex_videos" "1 < length ex_videos" by (simp_all add: ex_videos_def)
  have e1: "spec_accept (1 / 2) ?no [4 / 5, 0]
        (class_proposals [''run'', ''jump''] 3 [ex_run2, ex_run3]) [ex_run1]
     = [ex_run1, ex_run3]"
    by code_simp
  have e2: "spec_frames (1 / 2) ?no [''run'', ''jump''] 3 (snd (ex_videos ! 0)) []
     = [ex_run1, ex_run3]"
    by code_simp
  have e3: "spec_frames (1 / 2) ?no [''run'', ''jump''] 3 (take 1 (snd (ex_videos ! 0))) []
     = [ex_run1]"
    by code_simp
  have e4: "spec_frames (1 / 2) ?no [''run'', ''jump''] 3 (snd (ex_videos ! 1)) []
     = [ex_run2]"
    by code_simp
  note w = online_acceptance [OF h, where check_overlap = check_overlap_proposal
      and sup_threshold = "1 / 2" and overlapThresh = "3 / 10"
      and proposal_anc_dict = "[ex_run2, ex_run3]" and accepted = "[ex_run1]"]
  note v = online_acceptance [OF h, where check_overlap = check_overlap_proposal
      and sup_threshold = "1 / 2" and overlapThresh = "3 / 10" and accepted = "[]"]
  have w1: "accept_frame check_overlap_proposal (1 / 2) (3 / 10) [''run'', ''jump''] 3 [4 / 5, 0]
        [ex_run2, ex_run3] [ex_run1] = Inr [ex_run1, ex_run3]"
    using w [THEN conjunct1] e1 by simp
  note v4 = v [THEN conjunct2, THEN conjunct2, THEN conjunct2, THEN conjunct1]
  note v5 = v [THEN conjunct2, THEN conjunct2, THEN conjunct2, THEN conjunct2, THEN conjunct1,
      rule_format, of 1]
  note v6 = v [THEN conjunct2, THEN conjunct2, THEN conjunct2, THEN conjunct2, THEN conjunct2]
  have w4: "video_frames check_overlap_proposal (1 / 2) (3 / 10) [''run'', ''jump''] 3
        (snd (ex_videos ! 0)) [] = Inr [ex_run1, ex_run3]"
    using v4 e2 by simp
  have w5: "video_frames check_overlap_proposal (1 / 2) (3 / 10) [''run'', ''jump''] 3
        (take 1 (snd (ex_videos ! 0))) [] = Inr [ex_run1]"
    "prefix [ex_run1] [ex_run1, ex_run3]"
    using v5 e2 e3 by simp_all
  from v6 obtain rd where
    rd: "online_refiner check_overlap_proposal (1 / 2) (3 / 10) [''run'', ''jump''] 3 ex_videos
          = Inr rd"
    and r: "\<forall>i<length ex_videos. rd (fst (ex_videos ! i))
              = Some (spec_frames (1 / 2) ?no [''run'', ''jump''] 3 (snd (ex_videos ! i)) [])"
    by blast
  have "rd (fst (ex_videos ! 0)) = Some [ex_run1, ex_run3]"
    "rd (fst (ex_videos ! 1)) = Some [ex_run2]"
    using r i e2 e4 by auto
  with rd have w6: "\<exists>result_dict.
        online_refiner check_overlap_proposal (1 / 2) (3 / 10) [''run'', ''jump''] 3 ex_videos
          = Inr result_dict
        \<and> result_dict (fst (ex_videos ! 0)) = Some [ex_run1, ex_run3]
        \<and> result_dict (fst (ex_videos ! 1)) = Some [ex_run2]"
    by blast
  show ?thesis
    using h(1,2,5) w1 w4 w5 w6 by blast
qed

section \<open>The activity index\<close>



end
